theory Spec2Isabelle
  imports Main "HOL-Library.AList" "HOL-Library.Word"
begin

section \<open>JavaScript values the cache works with\<close>

text \<open>
  An optional argument or option field of the TypeScript source is one of three things:
  left out (\<open>undefined\<close>), \<open>null\<close>, or a value. A default parameter
  (\<open>ttl = this.ttl\<close>) replaces only \<open>undefined\<close>; the operator \<open>??\<close> replaces
  \<open>undefined\<close> and \<open>null\<close> alike.
\<close>

datatype 'a arg = Omitted | Null | Given 'a

fun default_param :: "'a arg \<Rightarrow> 'a option \<Rightarrow> 'a option" where
  "default_param Omitted d = d"
| "default_param Null d = None"
| "default_param (Given x) d = Some x"

fun nullish :: "'a arg \<Rightarrow> 'a \<Rightarrow> 'a" where
  "nullish (Given x) d = x"
| "nullish Omitted d = d"
| "nullish Null d = d"

fun nullish_opt :: "'a arg \<Rightarrow> 'a option \<Rightarrow> 'a option" where
  "nullish_opt (Given x) d = Some x"
| "nullish_opt Omitted d = d"
| "nullish_opt Null d = d"

text \<open>
  Structured values as \<open>JSON.stringify\<close> sees them. Numbers are restricted to the
  integers that JavaScript prints as plain decimal numerals (the safe integers; from
  \<open>10^21\<close> on it prints an exponent, which \<open>show_int\<close> does not).
  Strings are byte strings (ASCII, or the UTF-8 bytes of the text). The list of a
  \<open>JObject\<close> is the sequence of property definitions that built the object, in the order
  they were made (an object literal, \<open>Object.fromEntries\<close>, or \<open>JSON.parse\<close> reading
  the members of an object from left to right).
\<close>

datatype json =
    JNull
  | JBool bool
  | JNumber int
  | JString string
  | JArray "json list"
  | JObject "(string \<times> json) list"

type_synonym byte = "8 word"

subsection \<open>Decimal numerals and array indices\<close>

fun digit_char :: "nat \<Rightarrow> char" where
  "digit_char n = ''0123456789abcdef'' ! (n mod 16)"

fun show_nat :: "nat \<Rightarrow> string" where
  "show_nat n = (if n < 10 then [digit_char n] else show_nat (n div 10) @ [digit_char (n mod 10)])"

declare show_nat.simps [simp del]

definition show_int :: "int \<Rightarrow> string" where
  "show_int i = (if i < 0 then CHR ''-'' # show_nat (nat (- i)) else show_nat (nat i))"

definition is_digit :: "char \<Rightarrow> bool" where
  "is_digit c = (c \<in> set ''0123456789'')"

definition digit_val :: "char \<Rightarrow> nat" where
  "digit_val c = of_char c - 48"

definition read_nat :: "string \<Rightarrow> nat" where
  "read_nat s = foldl (\<lambda>a c. 10 * a + digit_val c) 0 s"

text \<open>
  An array index is a canonical decimal numeral below \<open>2^32 - 1\<close>. An object enumerates
  its array-index keys first, in ascending numeric order, then its other string keys in
  the order they were first defined.
\<close>

definition is_array_index :: "string \<Rightarrow> bool" where
  "is_array_index s =
     (s \<noteq> [] \<and> list_all is_digit s \<and> (hd s = CHR ''0'' \<longrightarrow> s = ''0'') \<and>
      List.length s \<le> 10 \<and> read_nat s < 4294967295)"

fun insert_index :: "string \<times> 'a \<Rightarrow> (string \<times> 'a) list \<Rightarrow> (string \<times> 'a) list" where
  "insert_index p [] = [p]"
| "insert_index p (q # qs) =
     (if read_nat (fst p) \<le> read_nat (fst q) then p # q # qs else q # insert_index p qs)"

definition own_properties :: "(string \<times> 'a) list \<Rightarrow> (string \<times> 'a) list" where
  "own_properties defs =
     (let props = foldl (\<lambda>m (k, v). AList.update k v m) [] defs
      in foldr insert_index (filter (\<lambda>p. is_array_index (fst p)) props) [] @
         filter (\<lambda>p. \<not> is_array_index (fst p)) props)"

subsection \<open>JSON.stringify\<close>

definition hex4 :: "nat \<Rightarrow> string" where
  "hex4 n = [digit_char (n div 4096), digit_char (n div 256), digit_char (n div 16), digit_char n]"

definition escape_char :: "char \<Rightarrow> string" where
  "escape_char c =
     (if c = CHR 0x22 then [CHR 0x5C, CHR 0x22]
      else if c = CHR 0x5C then [CHR 0x5C, CHR 0x5C]
      else if c = CHR 0x08 then [CHR 0x5C, CHR ''b'']
      else if c = CHR 0x0C then [CHR 0x5C, CHR ''f'']
      else if c = CHR 0x0A then [CHR 0x5C, CHR ''n'']
      else if c = CHR 0x0D then [CHR 0x5C, CHR ''r'']
      else if c = CHR 0x09 then [CHR 0x5C, CHR ''t'']
      else if (of_char c :: nat) < 32 then [CHR 0x5C, CHR ''u''] @ hex4 (of_char c)
      else [c])"

definition quote :: "string \<Rightarrow> string" where
  "quote s = [CHR 0x22] @ concat (map escape_char s) @ [CHR 0x22]"

fun join :: "string \<Rightarrow> string list \<Rightarrow> string" where
  "join sep [] = []"
| "join sep [x] = x"
| "join sep (x # y # ys) = x @ sep @ join sep (y # ys)"

text \<open>
  \<open>canonical\<close> replaces the definition sequence of every object by its enumeration
  order; \<open>render\<close> prints a value whose objects are already in enumeration order.
\<close>

fun canonical :: "json \<Rightarrow> json" where
  "canonical (JArray xs) = JArray (map canonical xs)"
| "canonical (JObject fs) = JObject (own_properties (map (\<lambda>(k, v). (k, canonical v)) fs))"
| "canonical v = v"

fun render :: "json \<Rightarrow> string" where
  "render JNull = ''null''"
| "render (JBool b) = (if b then ''true'' else ''false'')"
| "render (JNumber n) = show_int n"
| "render (JString s) = quote s"
| "render (JArray xs) = ''['' @ join '','' (map render xs) @ '']''"
| "render (JObject fs) = ''{'' @ join '','' (map (\<lambda>(k, v). quote k @ '':'' @ render v) fs) @ ''}''"

definition JSON_stringify :: "json \<Rightarrow> string" where
  "JSON_stringify v = render (canonical v)"

text \<open>\<open>Object.fromEntries(map.entries())\<close> for a map whose values are strings.\<close>

definition Object_fromEntries :: "(string \<times> string) list \<Rightarrow> json" where
  "Object_fromEntries es = JObject (map (\<lambda>(k, v). (k, JString v)) es)"

text \<open>\<open>Buffer.from(text)\<close>: the bytes of the text.\<close>

definition Buffer_from :: "string \<Rightarrow> byte list" where
  "Buffer_from s = map of_char s"

section \<open>Hash Identity\<close>

text \<open>
  The digest itself is Node's \<open>crypto\<close> module, outside the repository. It enters as a
  parameter: \<open>D algorithm encoding message\<close> is the encoded digest of the whole message.
  A \<open>Hash\<close> object collects the chunks given to \<open>update\<close> and digests their
  concatenation.
\<close>

type_synonym digest = "string \<Rightarrow> string \<Rightarrow> byte list \<Rightarrow> string"

record Hash =
  hash_algorithm :: string
  hash_message :: "byte list"

definition createHash :: "string \<Rightarrow> Hash" where
  "createHash alg = \<lparr>hash_algorithm = alg, hash_message = []\<rparr>"

definition hash_update :: "byte list \<Rightarrow> Hash \<Rightarrow> Hash" where
  "hash_update chunk h = h\<lparr>hash_message := hash_message h @ chunk\<rparr>"

definition hash_digest :: "digest \<Rightarrow> string \<Rightarrow> Hash \<Rightarrow> string" where
  "hash_digest D enc h = D (hash_algorithm h) enc (hash_message h)"

text \<open>\<open>text.slice(0, n)\<close>: a negative end counts from the end of the text.\<close>

definition slice0 :: "string \<Rightarrow> int \<Rightarrow> string" where
  "slice0 s n = (if n < 0 then take (nat (int (List.length s) + n)) s else take (nat n) s)"

record HashOptions =
  algorithm :: string
  encoding :: string
  hash_length :: int
  ttl :: "int option"
  maxEntries :: "int option"

record PartialHashOptions =
  opt_algorithm :: "string arg"
  opt_encoding :: "string arg"
  opt_length :: "int arg"
  opt_ttl :: "int arg"
  opt_maxEntries :: "int arg"

definition no_options :: PartialHashOptions where
  "no_options = \<lparr>opt_algorithm = Omitted, opt_encoding = Omitted, opt_length = Omitted,
                  opt_ttl = Omitted, opt_maxEntries = Omitted\<rparr>"

definition defaults :: HashOptions where
  "defaults = \<lparr>algorithm = ''sha256'', encoding = ''hex'', hash_length = 14,
               ttl = Some (1000 * 60 * 60), maxEntries = None\<rparr>"

definition computeBufferHash ::
  "digest \<Rightarrow> 'z HashOptions_scheme \<Rightarrow> byte list \<Rightarrow> PartialHashOptions \<Rightarrow> string" where
  "computeBufferHash D this buffer options =
     slice0
       (hash_digest D (nullish (opt_encoding options) (encoding this))
          (hash_update buffer (createHash (nullish (opt_algorithm options) (algorithm this)))))
       (nullish (opt_length options) (hash_length this))"

text \<open>
  A readable stream is the sequence of events it emits. The promise returned by
  \<open>computeStreamHash\<close> settles at the first \<open>end\<close> or \<open>error\<close> event and stays
  pending when the events run out before either.
\<close>

datatype 'e stream_event = Data "byte list" | End | Error 'e

datatype ('e, 'a) promise = Resolved 'a | Rejected 'e | Pending

fun consume :: "digest \<Rightarrow> string \<Rightarrow> int \<Rightarrow> Hash \<Rightarrow> 'e stream_event list \<Rightarrow> ('e, string) promise" where
  "consume D enc len h [] = Pending"
| "consume D enc len h (Data chunk # evs) = consume D enc len (hash_update chunk h) evs"
| "consume D enc len h (End # evs) = Resolved (slice0 (hash_digest D enc h) len)"
| "consume D enc len h (Error err # evs) = Rejected err"

definition computeStreamHash ::
  "digest \<Rightarrow> 'z HashOptions_scheme \<Rightarrow> 'e stream_event list \<Rightarrow> PartialHashOptions \<Rightarrow> ('e, string) promise" where
  "computeStreamHash D this stream options =
     consume D (nullish (opt_encoding options) (encoding this))
       (nullish (opt_length options) (hash_length this))
       (createHash (nullish (opt_algorithm options) (algorithm this))) stream"

definition computeAnyHash ::
  "digest \<Rightarrow> 'z HashOptions_scheme \<Rightarrow> json \<Rightarrow> PartialHashOptions \<Rightarrow> string" where
  "computeAnyHash D this v options =
     computeBufferHash D this (Buffer_from (JSON_stringify v)) options"

subsection \<open>SHA-256, the default digest\<close>

text \<open>The round constants and the initial hash value of SHA-256 (FIPS 180-4).\<close>

definition K256 :: "nat list" where
  "K256 =
     [0x428A2F98, 0x71374491, 0xB5C0FBCF, 0xE9B5DBA5, 0x3956C25B, 0x59F111F1, 0x923F82A4, 0xAB1C5ED5,
      0xD807AA98, 0x12835B01, 0x243185BE, 0x550C7DC3, 0x72BE5D74, 0x80DEB1FE, 0x9BDC06A7, 0xC19BF174,
      0xE49B69C1, 0xEFBE4786, 0x0FC19DC6, 0x240CA1CC, 0x2DE92C6F, 0x4A7484AA, 0x5CB0A9DC, 0x76F988DA,
      0x983E5152, 0xA831C66D, 0xB00327C8, 0xBF597FC7, 0xC6E00BF3, 0xD5A79147, 0x06CA6351, 0x14292967,
      0x27B70A85, 0x2E1B2138, 0x4D2C6DFC, 0x53380D13, 0x650A7354, 0x766A0ABB, 0x81C2C92E, 0x92722C85,
      0xA2BFE8A1, 0xA81A664B, 0xC24B8B70, 0xC76C51A3, 0xD192E819, 0xD6990624, 0xF40E3585, 0x106AA070,
      0x19A4C116, 0x1E376C08, 0x2748774C, 0x34B0BCB5, 0x391C0CB3, 0x4ED8AA4A, 0x5B9CCA4F, 0x682E6FF3,
      0x748F82EE, 0x78A5636F, 0x84C87814, 0x8CC70208, 0x90BEFFFA, 0xA4506CEB, 0xBEF9A3F7, 0xC67178F2]"

definition H256 :: "nat list" where
  "H256 =
     [0x6A09E667, 0xBB67AE85, 0x3C6EF372, 0xA54FF53A, 0x510E527F, 0x9B05688C, 0x1F83D9AB, 0x5BE0CD19]"

text \<open>Words are natural numbers below \<open>2^32\<close>; addition wraps.\<close>

definition add32 :: "nat \<Rightarrow> nat \<Rightarrow> nat" where
  "add32 x y = (x + y) mod 4294967296"

definition rotr :: "nat \<Rightarrow> nat \<Rightarrow> nat" where
  "rotr n x = x div 2 ^ n + (x mod 2 ^ n) * 2 ^ (32 - n)"

definition shr :: "nat \<Rightarrow> nat \<Rightarrow> nat" where
  "shr n x = x div 2 ^ n"

definition not32 :: "nat \<Rightarrow> nat" where
  "not32 x = 4294967295 - x"

definition xor3 :: "nat \<Rightarrow> nat \<Rightarrow> nat \<Rightarrow> nat" where
  "xor3 x y z = Bit_Operations.xor (Bit_Operations.xor x y) z"

definition ssig0 :: "nat \<Rightarrow> nat" where
  "ssig0 x = xor3 (rotr 7 x) (rotr 18 x) (shr 3 x)"
definition ssig1 :: "nat \<Rightarrow> nat" where
  "ssig1 x = xor3 (rotr 17 x) (rotr 19 x) (shr 10 x)"
definition bsig0 :: "nat \<Rightarrow> nat" where
  "bsig0 x = xor3 (rotr 2 x) (rotr 13 x) (rotr 22 x)"
definition bsig1 :: "nat \<Rightarrow> nat" where
  "bsig1 x = xor3 (rotr 6 x) (rotr 11 x) (rotr 25 x)"
definition ch :: "nat \<Rightarrow> nat \<Rightarrow> nat \<Rightarrow> nat" where
  "ch x y z = Bit_Operations.xor (Bit_Operations.and x y) (Bit_Operations.and (not32 x) z)"
definition maj :: "nat \<Rightarrow> nat \<Rightarrow> nat \<Rightarrow> nat" where
  "maj x y z = xor3 (Bit_Operations.and x y) (Bit_Operations.and x z) (Bit_Operations.and y z)"

text \<open>
  One round: the window holds the last 16 words of the message schedule, oldest first;
  the round consumes the oldest word and appends the next one.
\<close>

fun round256 :: "nat list \<times> nat list \<Rightarrow> nat \<Rightarrow> nat list \<times> nat list" where
  "round256 ([a, b, c, d, e, f, g, h],
             [w0, w1, w2, w3, w4, w5, w6, w7, w8, w9, w10, w11, w12, w13, w14, w15]) k =
     (let t1 = add32 (add32 (add32 h (bsig1 e)) (add32 (ch e f g) k)) w0;
          t2 = add32 (bsig0 a) (maj a b c)
      in ([add32 t1 t2, a, b, c, add32 d t1, e, f, g],
          [w1, w2, w3, w4, w5, w6, w7, w8, w9, w10, w11, w12, w13, w14, w15,
           add32 (add32 (ssig1 w14) w9) (add32 (ssig0 w1) w0)]))"
| "round256 sw k = sw"

definition compress :: "nat list \<Rightarrow> nat list \<Rightarrow> nat list" where
  "compress st block = map2 add32 st (fst (foldl round256 (st, block) K256))"

fun be32 :: "nat list \<Rightarrow> nat list" where
  "be32 (a # b # c # d # rest) = (((a * 256 + b) * 256 + c) * 256 + d) # be32 rest"
| "be32 bs = []"

fun chunks16 :: "nat list \<Rightarrow> nat list list" where
  "chunks16 (w0 # w1 # w2 # w3 # w4 # w5 # w6 # w7 # w8 # w9 # w10 # w11 # w12 # w13 # w14 # w15 # rest) =
     [w0, w1, w2, w3, w4, w5, w6, w7, w8, w9, w10, w11, w12, w13, w14, w15] # chunks16 rest"
| "chunks16 ws = []"

text \<open>
  Padding: the byte \<open>0x80\<close>, zero bytes up to 56 modulo 64, and the length of the message
  in bits as eight bytes, most significant first.
\<close>

definition zero_block :: "nat list" where
  "zero_block =
     [0, 0, 0, 0, 0, 0, 0, 0, 0, 0, 0, 0, 0, 0, 0, 0,
      0, 0, 0, 0, 0, 0, 0, 0, 0, 0, 0, 0, 0, 0, 0, 0,
      0, 0, 0, 0, 0, 0, 0, 0, 0, 0, 0, 0, 0, 0, 0, 0,
      0, 0, 0, 0, 0, 0, 0, 0, 0, 0, 0, 0, 0, 0, 0, 0]"

definition pad :: "nat list \<Rightarrow> nat list" where
  "pad msg =
     (let l = length msg; bits = 8 * l
      in msg @ [128] @ take ((119 - l mod 64) mod 64) zero_block @
         map (\<lambda>i. (bits div 256 ^ (7 - i)) mod 256) [0, 1, 2, 3, 4, 5, 6, 7])"

definition sha256 :: "byte list \<Rightarrow> nat list" where
  "sha256 msg = foldl compress H256 (chunks16 (be32 (pad (map unat msg))))"

definition hex32 :: "nat \<Rightarrow> string" where
  "hex32 w = map (\<lambda>i. digit_char (w div 16 ^ (7 - i))) [0, 1, 2, 3, 4, 5, 6, 7]"

text \<open>
  The digest as hexadecimal text. This is the digest that Node computes for the default
  algorithm \<open>sha256\<close> and the default encoding \<open>hex\<close>; it is used for the worked
  examples and does not look at the names of the algorithm and the encoding.
\<close>

definition sha256_hex :: digest where
  "sha256_hex alg enc msg = concat (map hex32 (sha256 msg))"

section \<open>Core Cache\<close>

text \<open>
  The two closures that the source passes to \<open>setTimeout\<close>: the expiry of a key
  (\<open>() => this.delete(id)\<close>) and the scheduled save of the durable layer
  (\<open>() => this.throttleSaveRun(to)\<close>).
\<close>

datatype 'k callback = DeleteId 'k | ThrottleSaveRun

record 'k Timeout =
  handle :: nat
  armedAt :: int
  delay :: int
  callback :: "'k callback"

text \<open>
  Node fires a timer once its delay has passed; a delay below 1 or above \<open>2^31 - 1\<close>
  milliseconds is replaced by 1.
\<close>

definition fires_at :: "'k Timeout \<Rightarrow> int" where
  "fires_at t = armedAt t + (if delay t < 1 \<or> 2147483647 < delay t then 1 else delay t)"

datatype error = ConfigError string | TypeError string | IOError string

text \<open>
  The object state: the options, the entry store \<open>_cache\<close> and the \<open>expiryMap\<close>, both
  JavaScript Maps (association lists in insertion order with distinct keys), and the part
  of the runtime the object talks to: the timers that are armed and have neither fired
  nor been cleared, the next timer handle, and the clock read by \<open>Date.now()\<close>
  (milliseconds since construction).
\<close>

record ('k, 'v) HashCache = HashOptions +
  cache :: "('k \<times> 'v) list"
  expiryMap :: "('k \<times> int \<times> nat) list"
  timers :: "'k Timeout list"
  nextHandle :: nat
  now :: int

subsection \<open>Map operations\<close>

definition Map_set :: "'a \<Rightarrow> 'b \<Rightarrow> ('a \<times> 'b) list \<Rightarrow> ('a \<times> 'b) list" where
  "Map_set k v m = AList.update k v m"

definition Map_delete :: "'a \<Rightarrow> ('a \<times> 'b) list \<Rightarrow> ('a \<times> 'b) list" where
  "Map_delete k m = AList.delete k m"

definition Map_get :: "('a \<times> 'b) list \<Rightarrow> 'a \<Rightarrow> 'b option" where
  "Map_get m k = map_of m k"

definition Map_has :: "('a \<times> 'b) list \<Rightarrow> 'a \<Rightarrow> bool" where
  "Map_has m k = (map_of m k \<noteq> None)"

subsection \<open>Timers of the runtime\<close>

definition setTimeout ::
  "'k callback \<Rightarrow> int \<Rightarrow> ('k, 'v, 'z) HashCache_scheme \<Rightarrow> nat \<times> ('k, 'v, 'z) HashCache_scheme" where
  "setTimeout cb ms s =
     (nextHandle s,
      s\<lparr>timers := timers s @ [\<lparr>handle = nextHandle s, armedAt = now s, delay = ms, callback = cb\<rparr>],
        nextHandle := Suc (nextHandle s)\<rparr>)"

definition clearTimeout :: "nat \<Rightarrow> ('k, 'v, 'z) HashCache_scheme \<Rightarrow> ('k, 'v, 'z) HashCache_scheme" where
  "clearTimeout h s = s\<lparr>timers := filter (\<lambda>t. handle t \<noteq> h) (timers s)\<rparr>"

subsection \<open>The class HashCache\<close>

definition HashCache_new ::
  "PartialHashOptions \<Rightarrow> 'z \<Rightarrow> error + ('k, 'v, 'z) HashCache_scheme" where
  "HashCache_new options ext =
     (let len = nullish (opt_length options) (hash_length defaults)
      in if len \<le> 0 then Inl (ConfigError ''The hash length must be greater than 0'')
         else Inr \<lparr>algorithm = nullish (opt_algorithm options) (algorithm defaults),
                   encoding = nullish (opt_encoding options) (encoding defaults),
                   hash_length = len,
                   ttl = nullish_opt (opt_ttl options) (ttl defaults),
                   maxEntries = nullish_opt (opt_maxEntries options) (maxEntries defaults),
                   cache = [], expiryMap = [], timers = [], nextHandle = 0, now = 0,
                   \<dots> = ext\<rparr>)"

definition HashCache_get :: "'k \<Rightarrow> ('k, 'v, 'z) HashCache_scheme \<Rightarrow> 'v option" where
  "HashCache_get key s = Map_get (cache s) key"

definition HashCache_has :: "'k \<Rightarrow> ('k, 'v, 'z) HashCache_scheme \<Rightarrow> bool" where
  "HashCache_has key s = Map_has (cache s) key"

definition HashCache_size :: "('k, 'v, 'z) HashCache_scheme \<Rightarrow> nat" where
  "HashCache_size s = List.length (cache s)"

definition HashCache_keys :: "('k, 'v, 'z) HashCache_scheme \<Rightarrow> 'k list" where
  "HashCache_keys s = map fst (cache s)"

definition HashCache_delete ::
  "'k \<Rightarrow> ('k, 'v, 'z) HashCache_scheme \<Rightarrow> bool \<times> ('k, 'v, 'z) HashCache_scheme" where
  "HashCache_delete key s =
     (let deleted = Map_has (cache s) key;
          s1 = s\<lparr>cache := Map_delete key (cache s)\<rparr>;
          s2 = s1\<lparr>expiryMap := Map_delete key (expiryMap s1)\<rparr>
      in (deleted, s2))"

definition HashCache_clear :: "('k, 'v, 'z) HashCache_scheme \<Rightarrow> ('k, 'v, 'z) HashCache_scheme" where
  "HashCache_clear s =
     (let s1 = s\<lparr>cache := []\<rparr>;
          s2 = fold (\<lambda>(k, ts, timeout). clearTimeout timeout) (expiryMap s1) s1
      in s2\<lparr>expiryMap := []\<rparr>)"

definition hasTTL :: "('k, 'v, 'z) HashCache_scheme \<Rightarrow> bool" where
  "hasTTL s = (ttl s \<noteq> None)"

definition hasMaxEntries :: "int \<Rightarrow> ('k, 'v, 'z) HashCache_scheme \<Rightarrow> bool" where
  "hasMaxEntries offset s =
     (case maxEntries s of None \<Rightarrow> False
      | Some m \<Rightarrow> m \<le> int (List.length (cache s)) + offset)"

text \<open>
  \<open>handleConstraints\<close> and \<open>set\<close> call \<open>this.delete\<close> and
  \<open>this.handleConstraints\<close>, which the durable layer overrides; the method that the
  call reaches is the first argument. The \<open>ttl\<close> argument is the one that \<open>set\<close>
  passes on: a number or \<open>null\<close>. When the store is empty, \<open>keys().next().value\<close> is
  \<open>undefined\<close> and the method returns.
\<close>

definition handleConstraints_body ::
  "('k \<Rightarrow> ('k, 'v, 'z) HashCache_scheme \<Rightarrow> bool \<times> ('k, 'v, 'z) HashCache_scheme) \<Rightarrow>
   'k \<Rightarrow> int option \<Rightarrow> ('k, 'v, 'z) HashCache_scheme \<Rightarrow> ('k, 'v, 'z) HashCache_scheme" where
  "handleConstraints_body this_delete key ttl_arg s =
     (let s3 =
        (if ttl_arg \<noteq> None \<or> hasTTL s then
           let s1 = (case Map_get (expiryMap s) key of
                       Some (ts, timeout) \<Rightarrow> clearTimeout timeout s
                     | None \<Rightarrow> s);
               (timeout, s2) =
                  setTimeout (DeleteId key)
                    (case ttl_arg of Some n \<Rightarrow> n
                     | None \<Rightarrow> (case ttl s1 of Some n \<Rightarrow> n | None \<Rightarrow> 0)) s1
           in s2\<lparr>expiryMap := Map_set key (now s2, timeout) (expiryMap s2)\<rparr>
         else s)
      in if hasMaxEntries (- 1) s3 then
           (case cache s3 of
              [] \<Rightarrow> s3
            | (first, v) # rest \<Rightarrow> snd (this_delete first s3))
         else s3)"

definition set_body ::
  "('k \<Rightarrow> int option \<Rightarrow> ('k, 'v, 'z) HashCache_scheme \<Rightarrow> ('k, 'v, 'z) HashCache_scheme) \<Rightarrow>
   'k \<Rightarrow> 'v \<Rightarrow> int arg \<Rightarrow> ('k, 'v, 'z) HashCache_scheme \<Rightarrow> ('k, 'v, 'z) HashCache_scheme" where
  "set_body this_handleConstraints key v ttl_arg s =
     (let ttl1 = default_param ttl_arg (ttl s);
          s1 = s\<lparr>cache := Map_set key v (cache s)\<rparr>
      in this_handleConstraints key ttl1 s1)"

definition HashCache_handleConstraints ::
  "'k \<Rightarrow> int option \<Rightarrow> ('k, 'v, 'z) HashCache_scheme \<Rightarrow> ('k, 'v, 'z) HashCache_scheme" where
  "HashCache_handleConstraints = handleConstraints_body HashCache_delete"

definition HashCache_set ::
  "'k \<Rightarrow> 'v \<Rightarrow> int arg \<Rightarrow> ('k, 'v, 'z) HashCache_scheme \<Rightarrow> ('k, 'v, 'z) HashCache_scheme" where
  "HashCache_set = set_body HashCache_handleConstraints"

subsection \<open>Runs of the Core Cache\<close>

text \<open>
  A timer that is armed and due fires when the runtime gets to it: it leaves the list of
  armed timers and its callback runs. The callback is given by the class of the object.
\<close>

definition fire_body ::
  "('k callback \<Rightarrow> ('k, 'v, 'z) HashCache_scheme \<Rightarrow> ('k, 'v, 'z) HashCache_scheme) \<Rightarrow>
   nat \<Rightarrow> ('k, 'v, 'z) HashCache_scheme \<Rightarrow> ('k, 'v, 'z) HashCache_scheme" where
  "fire_body run_callback h s =
     (case find (\<lambda>t. handle t = h) (timers s) of
        None \<Rightarrow> s
      | Some t \<Rightarrow>
          if now s < fires_at t then s
          else run_callback (callback t) (clearTimeout h s))"

fun HashCache_callback ::
  "'k callback \<Rightarrow> ('k, 'v, 'z) HashCache_scheme \<Rightarrow> ('k, 'v, 'z) HashCache_scheme" where
  "HashCache_callback (DeleteId key) s = snd (HashCache_delete key s)"
| "HashCache_callback ThrottleSaveRun s = s"

datatype ('k, 'v) event =
    Set 'k 'v "int arg"
  | Delete 'k
  | Clear
  | Tick nat
  | Fire nat

fun step :: "('k, 'v) event \<Rightarrow> ('k, 'v, 'z) HashCache_scheme \<Rightarrow> ('k, 'v, 'z) HashCache_scheme" where
  "step (Set key v ttl_arg) s = HashCache_set key v ttl_arg s"
| "step (Delete key) s = snd (HashCache_delete key s)"
| "step Clear s = HashCache_clear s"
| "step (Tick ms) s = s\<lparr>now := now s + int ms\<rparr>"
| "step (Fire h) s = fire_body HashCache_callback h s"

definition run :: "('k, 'v) event list \<Rightarrow> ('k, 'v, 'z) HashCache_scheme \<Rightarrow> ('k, 'v, 'z) HashCache_scheme" where
  "run evs s = fold step evs s"

section \<open>Durable Snapshot Layer\<close>

text \<open>
  The backing file is read with \<open>JSON.parse\<close> and written with \<open>JSON.stringify\<close>, both
  outside the repository. A file is modelled by what \<open>JSON.parse\<close> makes of its text:
  it throws, or it returns a value. The text \<open>JSON.stringify(v)\<close> is read back as \<open>v\<close>
  with every object in its enumeration order.
\<close>

datatype file_content = Unparseable | Document json

definition stringified :: "json \<Rightarrow> file_content" where
  "stringified v = Document (canonical v)"

text \<open>
  \<open>Object.entries\<close>: the own enumerable properties. It throws a TypeError on \<open>null\<close>,
  gives the indexed elements of an array and the indexed characters of a string (its
  bytes here, its UTF-16 code units in JavaScript: the two agree on ASCII text), and
  nothing for a number or a boolean.
\<close>

fun Object_entries :: "json \<Rightarrow> (string \<times> json) list option" where
  "Object_entries JNull = None"
| "Object_entries (JBool b) = Some []"
| "Object_entries (JNumber n) = Some []"
| "Object_entries (JString str) =
     Some (map (\<lambda>i. (show_nat i, JString [str ! i])) [0 ..< List.length str])"
| "Object_entries (JArray xs) = Some (map (\<lambda>i. (show_nat i, xs ! i)) [0 ..< List.length xs])"
| "Object_entries (JObject defs) = Some (own_properties defs)"

text \<open>
  The fields of the subclass, and the part of the file system it talks to: the file at
  \<open>_cachePath\<close> (\<open>None\<close> when there is no such file) and the number of calls of
  \<open>fs.promises.writeFile\<close> made so far.
\<close>

record PersistentHashCache = "(string, string) HashCache" +
  cachePath :: string
  cacheSaveEvery :: int
  cacheHash :: "string option"
  cacheFileExists :: bool
  throttleSaveCacheTimeout :: "nat option"
  disk :: "file_content option"
  writeCalls :: nat

definition writeFile ::
  "bool \<Rightarrow> file_content \<Rightarrow> PersistentHashCache \<Rightarrow> (error, unit) promise \<times> PersistentHashCache" where
  "writeFile ok content s =
     (if ok then (Resolved (), s\<lparr>disk := Some content, writeCalls := Suc (writeCalls s)\<rparr>)
      else (Rejected (IOError ''writeFile''), s\<lparr>writeCalls := Suc (writeCalls s)\<rparr>))"

definition ensureCacheFileExists ::
  "bool \<Rightarrow> PersistentHashCache \<Rightarrow> (error, unit) promise \<times> PersistentHashCache" where
  "ensureCacheFileExists ok s =
     (if cacheFileExists s then (Resolved (), s)
      else if disk s = None then
        (case writeFile ok (stringified (JObject [])) s of
           (Resolved u, s1) \<Rightarrow> (Resolved (), s1\<lparr>cacheFileExists := True\<rparr>)
         | (r, s1) \<Rightarrow> (r, s1))
      else (Resolved (), s\<lparr>cacheFileExists := True\<rparr>))"

definition throttleSaveCache :: "PersistentHashCache \<Rightarrow> PersistentHashCache" where
  "throttleSaveCache s =
     (if throttleSaveCacheTimeout s \<noteq> None then s
      else let (timeout, s1) = setTimeout ThrottleSaveRun (cacheSaveEvery s) s
           in s1\<lparr>throttleSaveCacheTimeout := Some timeout\<rparr>)"

definition load_entry :: "string \<times> json \<Rightarrow> PersistentHashCache \<Rightarrow> PersistentHashCache" where
  "load_entry e s =
     (case snd e of
        JString v \<Rightarrow> s\<lparr>cache := Map_set (fst e) v (cache s)\<rparr>
      | _ \<Rightarrow> s)"

definition loadCache ::
  "digest \<Rightarrow> bool \<Rightarrow> PersistentHashCache \<Rightarrow> (error, unit) promise \<times> PersistentHashCache" where
  "loadCache D ok s =
     (case ensureCacheFileExists ok s of
        (Resolved u, s1) \<Rightarrow>
          (case disk s1 of
             None \<Rightarrow> (Rejected (IOError ''readFile''), s1)
           | Some data \<Rightarrow>
               let parsed = (case data of Unparseable \<Rightarrow> JObject [] | Document v \<Rightarrow> v);
                   s2 = s1\<lparr>cacheHash := Some (computeAnyHash D s1 parsed no_options)\<rparr>
               in (case Object_entries parsed of
                     None \<Rightarrow> (Rejected (TypeError ''Cannot convert undefined or null to object''), s2)
                   | Some entries \<Rightarrow> (Resolved (), fold load_entry entries s2)))
      | (r, s1) \<Rightarrow> (r, s1))"

definition saveCache ::
  "bool \<Rightarrow> PersistentHashCache \<Rightarrow> (error, unit) promise \<times> PersistentHashCache" where
  "saveCache ok s =
     (case ensureCacheFileExists ok s of
        (Resolved u, s1) \<Rightarrow> writeFile ok (stringified (Object_fromEntries (cache s1))) s1
      | (r, s1) \<Rightarrow> (r, s1))"

definition throttleSaveRun :: "digest \<Rightarrow> bool \<Rightarrow> PersistentHashCache \<Rightarrow> PersistentHashCache" where
  "throttleSaveRun D ok s =
     (let currCacheHash = computeAnyHash D s (Object_fromEntries (cache s)) no_options
      in if Some currCacheHash = cacheHash s then s\<lparr>throttleSaveCacheTimeout := None\<rparr>
         else let s1 = s\<lparr>cacheHash := Some currCacheHash\<rparr>;
                  s2 = snd (saveCache ok s1)
              in s2\<lparr>throttleSaveCacheTimeout := None\<rparr>)"

text \<open>
  The constructor: the fields are initialised and the load is started; when the load has
  resolved, its \<open>then\<close> callback arms the first debounce cycle.
\<close>

definition PersistentHashCache_new ::
  "PartialHashOptions \<Rightarrow> file_content option \<Rightarrow> error + PersistentHashCache" where
  "PersistentHashCache_new options file =
     HashCache_new options
       (PersistentHashCache_ext ''.cache'' 5000 None False None file 0 ())"

definition constructor_load ::
  "digest \<Rightarrow> bool \<Rightarrow> PersistentHashCache \<Rightarrow> (error, unit) promise \<times> PersistentHashCache" where
  "constructor_load D ok s =
     (case loadCache D ok s of
        (Resolved u, s1) \<Rightarrow> (Resolved (), throttleSaveCache s1)
      | (r, s1) \<Rightarrow> (r, s1))"

subsection \<open>The overridden methods\<close>

definition Persistent_delete :: "string \<Rightarrow> PersistentHashCache \<Rightarrow> bool \<times> PersistentHashCache" where
  "Persistent_delete key s =
     (let (deleted, s1) = HashCache_delete key s
      in (deleted, throttleSaveCache s1))"

definition Persistent_clear :: "PersistentHashCache \<Rightarrow> PersistentHashCache" where
  "Persistent_clear s = throttleSaveCache (HashCache_clear s)"

definition Persistent_handleConstraints ::
  "string \<Rightarrow> int option \<Rightarrow> PersistentHashCache \<Rightarrow> PersistentHashCache" where
  "Persistent_handleConstraints key ttl_arg s =
     throttleSaveCache (handleConstraints_body Persistent_delete key ttl_arg s)"

definition Persistent_set ::
  "string \<Rightarrow> string \<Rightarrow> int arg \<Rightarrow> PersistentHashCache \<Rightarrow> PersistentHashCache" where
  "Persistent_set key v ttl_arg s =
     throttleSaveCache (set_body Persistent_handleConstraints key v ttl_arg s)"

subsection \<open>Runs of the durable layer\<close>

text \<open>
  The flag of \<open>PFire\<close> says whether the \<open>writeFile\<close> calls issued by the callback
  succeed.
\<close>

fun Persistent_callback ::
  "digest \<Rightarrow> bool \<Rightarrow> string callback \<Rightarrow> PersistentHashCache \<Rightarrow> PersistentHashCache" where
  "Persistent_callback D ok (DeleteId key) s = snd (Persistent_delete key s)"
| "Persistent_callback D ok ThrottleSaveRun s = throttleSaveRun D ok s"

datatype pevent =
    PSet string string "int arg"
  | PDelete string
  | PClear
  | PTick nat
  | PFire nat bool

fun pstep :: "digest \<Rightarrow> pevent \<Rightarrow> PersistentHashCache \<Rightarrow> PersistentHashCache" where
  "pstep D (PSet key v ttl_arg) s = Persistent_set key v ttl_arg s"
| "pstep D (PDelete key) s = snd (Persistent_delete key s)"
| "pstep D PClear s = Persistent_clear s"
| "pstep D (PTick ms) s = s\<lparr>now := now s + int ms\<rparr>"
| "pstep D (PFire h ok) s = fire_body (Persistent_callback D ok) h s"

definition prun :: "digest \<Rightarrow> pevent list \<Rightarrow> PersistentHashCache \<Rightarrow> PersistentHashCache" where
  "prun D evs s = fold (pstep D) evs s"

subsection \<open>Example configurations\<close>

definition default_cache :: "(string, string) HashCache" where
  "default_cache =
     \<lparr>algorithm = ''sha256'', encoding = ''hex'', hash_length = 14,
      ttl = Some 3600000, maxEntries = None,
      cache = [], expiryMap = [], timers = [], nextHandle = 0, now = 0\<rparr>"

definition default_persistent :: "file_content option \<Rightarrow> PersistentHashCache" where
  "default_persistent file =
     \<lparr>algorithm = ''sha256'', encoding = ''hex'', hash_length = 14,
      ttl = Some 3600000, maxEntries = None,
      cache = [], expiryMap = [], timers = [], nextHandle = 0, now = 0,
      cachePath = ''.cache'', cacheSaveEvery = 5000, cacheHash = None,
      cacheFileExists = False, throttleSaveCacheTimeout = None, disk = file, writeCalls = 0\<rparr>"

definition bounded_cache :: "int \<Rightarrow> (string, string) HashCache" where
  "bounded_cache n = default_cache\<lparr>maxEntries := Some n\<rparr>"

definition eternal_cache :: "(string, string) HashCache" where
  "eternal_cache = default_cache\<lparr>ttl := None\<rparr>"

section \<open>Invariants\<close>

text \<open>
  The capacity invariant of a cache with \<open>maxEntries = N\<close>: the store is a map (its keys
  are distinct) and holds at most \<open>N\<close> entries.
\<close>

definition capacity_inv :: "int \<Rightarrow> ('k, 'v, 'z) HashCache_scheme \<Rightarrow> bool" where
  "capacity_inv N s =
     (distinct (map fst (cache s)) \<and> maxEntries s = Some N \<and> int (List.length (cache s)) \<le> N)"

text \<open>The events in which nothing happens but the passage of time.\<close>

fun passage_of_time :: "('k, 'v) event \<Rightarrow> bool" where
  "passage_of_time (Tick ms) = True"
| "passage_of_time (Fire h) = True"
| "passage_of_time e = False"

text \<open>
  The first \<open>if\<close> of \<open>handleConstraints\<close> on its own: the state after the expiry
  timer of the key has been armed, before the capacity is enforced.
\<close>

definition arm_expiry ::
  "'k \<Rightarrow> int option \<Rightarrow> ('k, 'v, 'z) HashCache_scheme \<Rightarrow> ('k, 'v, 'z) HashCache_scheme" where
  "arm_expiry key ttl_arg s =
     (if ttl_arg \<noteq> None \<or> hasTTL s then
        let s1 = (case Map_get (expiryMap s) key of
                    Some (ts, timeout) \<Rightarrow> clearTimeout timeout s
                  | None \<Rightarrow> s);
            (timeout, s2) =
               setTimeout (DeleteId key)
                 (case ttl_arg of Some n \<Rightarrow> n
                  | None \<Rightarrow> (case ttl s1 of Some n \<Rightarrow> n | None \<Rightarrow> 0)) s1
        in s2\<lparr>expiryMap := Map_set key (now s2, timeout) (expiryMap s2)\<rparr>
      else s)"

text \<open>
  Every armed save timer is the one that \<open>_throttleSaveCacheTimeout\<close> holds.
\<close>

definition throttle_inv :: "PersistentHashCache \<Rightarrow> bool" where
  "throttle_inv s =
     (\<forall>t \<in> set (timers s). callback t = ThrottleSaveRun \<longrightarrow> throttleSaveCacheTimeout s = Some (handle t))"

fun fires_timer :: "nat \<Rightarrow> pevent \<Rightarrow> bool" where
  "fires_timer h (PFire h' ok) = (h' = h)"
| "fires_timer h e = False"

text \<open>The events in which an armed and due save timer fires and \<open>throttleSaveRun\<close> runs.\<close>

fun runs_save :: "pevent \<Rightarrow> PersistentHashCache \<Rightarrow> bool" where
  "runs_save (PFire h ok) s =
     (case find (\<lambda>t. handle t = h) (timers s) of
        Some t \<Rightarrow> callback t = ThrottleSaveRun \<and> fires_at t \<le> now s
      | None \<Rightarrow> False)"
| "runs_save e s = False"

text \<open>
  The timers of the durable layer are well formed: the handles of the armed timers are
  distinct and were all handed out, no timer was armed in the future, an expiry record
  never holds the handle of the save timer, the handle in \<open>_throttleSaveCacheTimeout\<close>
  is that of an armed save timer with the delay \<open>_cacheSaveEvery\<close> of 5000 ms, and the
  entry store has one entry for a key.
\<close>

definition timers_wf :: "PersistentHashCache \<Rightarrow> bool" where
  "timers_wf s =
     (distinct (map handle (timers s)) \<and>
      (\<forall>t \<in> set (timers s). handle t < nextHandle s \<and> armedAt t \<le> now s) \<and>
      (\<forall>e \<in> set (expiryMap s).
          snd (snd e) < nextHandle s \<and> Some (snd (snd e)) \<noteq> throttleSaveCacheTimeout s) \<and>
      (\<forall>h. throttleSaveCacheTimeout s = Some h \<longrightarrow>
          (\<exists>t \<in> set (timers s). handle t = h \<and> callback t = ThrottleSaveRun \<and> delay t = 5000)) \<and>
      cacheSaveEvery s = 5000 \<and> distinct (map fst (cache s)))"

text \<open>The calls a client makes: \<open>set\<close>, \<open>delete\<close> and \<open>clear\<close>.\<close>

fun is_mutation :: "pevent \<Rightarrow> bool" where
  "is_mutation (PSet key v ttl_arg) = True"
| "is_mutation (PDelete key) = True"
| "is_mutation PClear = True"
| "is_mutation (PTick ms) = False"
| "is_mutation (PFire h ok) = False"

section \<open>Properties of Hash Identity\<close>

subsection \<open>The SHA-256 digests of the worked examples\<close>

text \<open>
  The messages are the bytes 01 02 ff and the texts \<open>{}\<close>, \<open>{"x":"1"}\<close>,
  \<open>{"a":1,"b":2}\<close>, \<open>{"b":2,"a":1}\<close>, \<open>{"x":"0"}\<close>, \<open>{"x":"0","y":"2"}\<close> and
  \<open>{"y":"2"}\<close>.
\<close>

lemmas sha256_eval = sha256_hex_def sha256_def pad_def zero_block_def compress_def K256_def H256_def
  add32_def rotr_def shr_def not32_def xor3_def ssig0_def ssig1_def bsig0_def bsig1_def ch_def maj_def
  hex32_def Let_def

lemma sha256_hex_bytes:
  "sha256_hex alg enc [1, 2, 255] =
     ''0526d0e18ea19dfaad9d79166bec1e18d6221ef6b1830385fe9bf67022ed5f96''"
  by (simp add: sha256_eval)

lemma sha256_hex_empty_object:
  "sha256_hex alg enc [123, 125] =
     ''44136fa355b3678a1146ad16f7e8649e94fb4fc21fe77e8310c060f61caaff8a''"
  by (simp add: sha256_eval)

lemma sha256_hex_x1:
  "sha256_hex alg enc [123, 34, 120, 34, 58, 34, 49, 34, 125] =
     ''013bdcb2b4d38b7d26f13f2a48631e9a5ae45530c3ef0e5946668d4f1892baa1''"
  by (simp add: sha256_eval)

lemma sha256_hex_ab:
  "sha256_hex alg enc [123, 34, 97, 34, 58, 49, 44, 34, 98, 34, 58, 50, 125] =
     ''43258cff783fe7036d8a43033f830adfc60ec037382473548ac742b888292777''"
  by (simp add: sha256_eval)

lemma sha256_hex_ba:
  "sha256_hex alg enc [123, 34, 98, 34, 58, 50, 44, 34, 97, 34, 58, 49, 125] =
     ''3fb75453225c732a76b7899ea2096dda1455189c89817239732182f73fe5a09f''"
  by (simp add: sha256_eval)

lemma sha256_hex_x0:
  "sha256_hex alg enc [123, 34, 120, 34, 58, 34, 48, 34, 125] =
     ''ac34341052287fc96dc7e5a7b70f5dc0739ebef2f785cff27aa0cbdc8bf7bcac''"
  by (simp add: sha256_eval)

lemma sha256_hex_x0y2:
  "sha256_hex alg enc [123, 34, 120, 34, 58, 34, 48, 34, 44, 34, 121, 34, 58, 34, 50, 34, 125] =
     ''6d85d8654ba8203f8ba83d48ce0d4d10f2832a2b1e7a652ca770b3db1f797e09''"
  by (simp add: sha256_eval)

lemma sha256_hex_y2:
  "sha256_hex alg enc [123, 34, 121, 34, 58, 34, 50, 34, 125] =
     ''412de5fb4b61b1dfd0020b6809fae45c4ab3b5b8422362b9c910db4c3a2fa914''"
  by (simp add: sha256_eval)

lemmas sha256_hex_examples =
  sha256_hex_bytes sha256_hex_empty_object sha256_hex_x1 sha256_hex_ab sha256_hex_ba
  sha256_hex_x0 sha256_hex_x0y2 sha256_hex_y2

lemma consume_Data_prefix:
  "consume D enc len h (map Data chunks @ rest) =
     consume D enc len (h\<lparr>hash_message := hash_message h @ concat chunks\<rparr>) rest"
  by (induction chunks arbitrary: h) (simp_all add: hash_update_def)

text \<open>
  Claim C9. For every finite sequence of chunks, a stream that delivers them and then ends
  resolves \<open>computeStreamHash\<close> with the fingerprint that \<open>computeBufferHash\<close>
  gives for their concatenation, under every configuration and override; a stream that
  errors rejects the promise with that error; a stream that does neither leaves it pending.
\<close>

theorem computeStreamHash_refines_computeBufferHash:
  "computeStreamHash D this (map Data chunks @ End # rest) options =
     Resolved (computeBufferHash D this (concat chunks) options)
   \<and> computeStreamHash D this (map Data chunks @ Error err # rest) options = Rejected err
   \<and> computeStreamHash D this (map Data chunks @ ([] :: 'e stream_event list)) options = Pending"
  for err :: 'e
proof -
  have "computeStreamHash D this (map Data chunks @ ([] :: 'e stream_event list)) options = Pending"
    unfolding computeStreamHash_def consume_Data_prefix by simp
  then show ?thesis
    by (simp add: computeStreamHash_def computeBufferHash_def consume_Data_prefix
        createHash_def hash_update_def hash_digest_def)
qed

theorem computeStreamHash_refines_computeBufferHash_witness:
  "computeStreamHash sha256_hex default_cache [Data [1, 2], Data [], Data [255], End] no_options =
     (Resolved ''0526d0e18ea19d'' :: (error, string) promise)
   \<and> computeBufferHash sha256_hex default_cache [1, 2, 255] no_options = ''0526d0e18ea19d''
   \<and> computeStreamHash sha256_hex default_cache [Data [1, 2], Error (IOError ''EIO''), Data [3], End] no_options =
     Rejected (IOError ''EIO'')"
  using computeStreamHash_refines_computeBufferHash
          [of sha256_hex default_cache "[[1, 2], [], [255]]" "[]" no_options "IOError ''EIO''"]
        computeStreamHash_refines_computeBufferHash
          [of sha256_hex default_cache "[[1, 2]]" "[Data [3], End]" no_options "IOError ''EIO''"]
  by (simp add: computeBufferHash_def createHash_def hash_update_def hash_digest_def sha256_hex_examples
      default_cache_def no_options_def slice0_def)

subsection \<open>Enumeration order of an object\<close>



























subsection \<open>The printed text determines the key\<close>
















subsection \<open>The claims about Hash Identity\<close>






section \<open>Properties of the Core Cache\<close>

subsection \<open>Maps as association lists\<close>

lemma Map_set_keys:
  "map fst (Map_set k v m) = (if k \<in> set (map fst m) then map fst m else map fst m @ [k])"
  by (simp add: Map_set_def update_keys)

lemma Map_set_distinct: "distinct (map fst m) \<Longrightarrow> distinct (map fst (Map_set k v m))"
  by (simp add: Map_set_def distinct_update)

lemma Map_delete_distinct: "distinct (map fst m) \<Longrightarrow> distinct (map fst (Map_delete k m))"
  by (simp add: Map_delete_def distinct_delete)

lemma Map_set_nonempty: "Map_set k v m \<noteq> []"
  by (simp add: Map_set_def)

lemma Map_get_set: "Map_get (Map_set k v m) k' = (if k' = k then Some v else Map_get m k')"
  by (simp add: Map_get_def Map_set_def update_conv')

lemma Map_get_delete: "Map_get (Map_delete k m) k' = (if k' = k then None else Map_get m k')"
  by (simp add: Map_get_def Map_delete_def delete_conv')

lemma Map_delete_length: "List.length (Map_delete k m) \<le> List.length m"
  by (simp add: Map_delete_def AList.delete_eq)

lemma Map_delete_first:
  "distinct (map fst ((k, v) # m)) \<Longrightarrow> Map_delete k ((k, v) # m) = m"
  by (simp add: Map_delete_def AList.delete_eq filter_id_conv) force

lemma Map_set_length:
  "List.length (Map_set k v m) = (if k \<in> set (map fst m) then List.length m else Suc (List.length m))"
  using arg_cong [OF Map_set_keys [of k v m], of List.length] by (simp split: if_splits)

subsection \<open>What each method does to each field\<close>

lemma clearTimeout_fields [simp]:
  "cache (clearTimeout h s) = cache s"
  "expiryMap (clearTimeout h s) = expiryMap s"
  "maxEntries (clearTimeout h s) = maxEntries s"
  "ttl (clearTimeout h s) = ttl s"
  "now (clearTimeout h s) = now s"
  "nextHandle (clearTimeout h s) = nextHandle s"
  "timers (clearTimeout h s) = filter (\<lambda>t. handle t \<noteq> h) (timers s)"
  by (simp_all add: clearTimeout_def)

lemma delete_fields [simp]:
  "cache (snd (HashCache_delete key s)) = Map_delete key (cache s)"
  "expiryMap (snd (HashCache_delete key s)) = Map_delete key (expiryMap s)"
  "timers (snd (HashCache_delete key s)) = timers s"
  "maxEntries (snd (HashCache_delete key s)) = maxEntries s"
  "ttl (snd (HashCache_delete key s)) = ttl s"
  "now (snd (HashCache_delete key s)) = now s"
  "nextHandle (snd (HashCache_delete key s)) = nextHandle s"
  "fst (HashCache_delete key s) = Map_has (cache s) key"
  by (simp_all add: HashCache_delete_def Let_def)

lemma fold_clearTimeout_fields [simp]:
  "cache (fold (\<lambda>(k, ts, timeout). clearTimeout timeout) em s) = cache s"
  "expiryMap (fold (\<lambda>(k, ts, timeout). clearTimeout timeout) em s) = expiryMap s"
  "maxEntries (fold (\<lambda>(k, ts, timeout). clearTimeout timeout) em s) = maxEntries s"
  "ttl (fold (\<lambda>(k, ts, timeout). clearTimeout timeout) em s) = ttl s"
  "now (fold (\<lambda>(k, ts, timeout). clearTimeout timeout) em s) = now s"
  by (induction em arbitrary: s; simp add: case_prod_unfold)+

lemma clear_fields [simp]:
  "cache (HashCache_clear s) = []"
  "expiryMap (HashCache_clear s) = []"
  "maxEntries (HashCache_clear s) = maxEntries s"
  "ttl (HashCache_clear s) = ttl s"
  "now (HashCache_clear s) = now s"
  by (simp_all add: HashCache_clear_def Let_def)

lemmas handleConstraints_unfold =
  HashCache_handleConstraints_def handleConstraints_body_def Let_def setTimeout_def
  hasMaxEntries_def hasTTL_def

lemma handleConstraints_cache:
  "cache (HashCache_handleConstraints key t s) =
     (if hasMaxEntries (- 1) s
      then (case cache s of [] \<Rightarrow> [] | (first, v) # rest \<Rightarrow> Map_delete first (cache s))
      else cache s)"
  by (auto simp: handleConstraints_unfold split: option.splits list.splits prod.splits)

lemma handleConstraints_timers:
  "timers (HashCache_handleConstraints key t s) =
     (case (case t of Some n \<Rightarrow> Some n | None \<Rightarrow> ttl s) of
        None \<Rightarrow> timers s
      | Some n \<Rightarrow>
          (case Map_get (expiryMap s) key of
             None \<Rightarrow> timers s
           | Some (ts, h) \<Rightarrow> filter (\<lambda>t. handle t \<noteq> h) (timers s)) @
          [\<lparr>handle = nextHandle s, armedAt = now s, delay = n, callback = DeleteId key\<rparr>])"
  by (auto simp: handleConstraints_unfold split: option.splits list.splits prod.splits)

lemma handleConstraints_fields [simp]:
  "maxEntries (HashCache_handleConstraints key t s) = maxEntries s"
  "ttl (HashCache_handleConstraints key t s) = ttl s"
  "now (HashCache_handleConstraints key t s) = now s"
  by (auto simp: handleConstraints_unfold split: option.splits list.splits prod.splits)

lemma set_fields [simp]:
  "maxEntries (HashCache_set key v a s) = maxEntries s"
  "ttl (HashCache_set key v a s) = ttl s"
  "now (HashCache_set key v a s) = now s"
  by (simp_all add: HashCache_set_def set_body_def Let_def)

lemma set_cache:
  "cache (HashCache_set key v a s) =
     (let ins = Map_set key v (cache s)
      in if (case maxEntries s of None \<Rightarrow> False | Some m \<Rightarrow> m < int (List.length ins))
         then (case ins of [] \<Rightarrow> [] | (first, v) # rest \<Rightarrow> Map_delete first ins)
         else ins)"
  by (auto simp: HashCache_set_def set_body_def Let_def handleConstraints_cache hasMaxEntries_def
      split: option.splits list.splits)

lemma set_timers:
  "timers (HashCache_set key v a s) =
     (case (case a of Given n \<Rightarrow> Some n | _ \<Rightarrow> ttl s) of
        None \<Rightarrow> timers s
      | Some n \<Rightarrow>
          (case Map_get (expiryMap s) key of
             None \<Rightarrow> timers s
           | Some (ts, h) \<Rightarrow> filter (\<lambda>t. handle t \<noteq> h) (timers s)) @
          [\<lparr>handle = nextHandle s, armedAt = now s, delay = n, callback = DeleteId key\<rparr>])"
  by (cases a) (auto simp: HashCache_set_def set_body_def Let_def handleConstraints_timers split: option.splits)

subsection \<open>Capacity\<close>

lemma set_cache_bounded:
  assumes "distinct (map fst (cache s))" "maxEntries s = Some N"
  shows "cache (HashCache_set key v a s) =
           (let ins = Map_set key v (cache s) in if N < int (List.length ins) then tl ins else ins)"
proof -
  let ?ins = "Map_set key v (cache s)"
  have d: "distinct (map fst ?ins)" using assms(1) by (rule Map_set_distinct)
  obtain f w rest where ins: "?ins = (f, w) # rest"
    using Map_set_nonempty [of key v "cache s"] by (cases ?ins) auto
  have "Map_delete f ?ins = tl ?ins"
    using d Map_delete_first [of f w rest] by (simp add: ins)
  then show ?thesis
    by (simp add: set_cache assms(2) Let_def ins)
qed

lemma set_capacity_inv:
  assumes "capacity_inv N s"
  shows "capacity_inv N (HashCache_set key v a s)"
proof -
  let ?ins = "Map_set key v (cache s)"
  from assms have d: "distinct (map fst (cache s))" and m: "maxEntries s = Some N"
    and l: "int (List.length (cache s)) \<le> N"
    by (simp_all add: capacity_inv_def)
  have c: "cache (HashCache_set key v a s) = (if N < int (List.length ?ins) then tl ?ins else ?ins)"
    using set_cache_bounded [OF d m] by (simp add: Let_def)
  have dins: "distinct (map fst ?ins)" using d by (rule Map_set_distinct)
  have dtl: "distinct (map fst (tl ?ins))"
    using dins by (cases ?ins) auto
  have "int (List.length ?ins) \<le> N + 1"
    using l by (simp add: Map_set_length)
  then have tl_len: "int (List.length (tl ?ins)) \<le> N"
    using Map_set_nonempty [of key v "cache s"] by (cases ?ins) auto
  have me: "maxEntries (HashCache_set key v a s) = Some N"
    using m by simp
  show ?thesis
  proof (cases "N < int (List.length ?ins)")
    case True
    then have "cache (HashCache_set key v a s) = tl ?ins" by (simp add: c)
    then show ?thesis
      unfolding capacity_inv_def using dtl me tl_len by metis
  next
    case False
    then have "cache (HashCache_set key v a s) = ?ins" by (simp add: c)
    then show ?thesis
      unfolding capacity_inv_def using dins me False by (metis not_less)
  qed
qed

lemma fire_cache:
  "cache (fire_body HashCache_callback h s) = cache s \<or>
   (\<exists>k. cache (fire_body HashCache_callback h s) = Map_delete k (cache s))"
proof (cases "find (\<lambda>t. handle t = h) (timers s)")
  case None
  then show ?thesis by (simp add: fire_body_def)
next
  case (Some t)
  then show ?thesis
    by (cases "callback t") (auto simp: fire_body_def)
qed

lemma fire_maxEntries [simp]: "maxEntries (fire_body HashCache_callback h s) = maxEntries s"
proof (cases "find (\<lambda>t. handle t = h) (timers s)")
  case None
  then show ?thesis by (simp add: fire_body_def)
next
  case (Some t)
  then show ?thesis
    by (cases "callback t") (auto simp: fire_body_def)
qed

lemma delete_capacity_inv:
  assumes "capacity_inv N s" "cache s' = Map_delete k (cache s)" "maxEntries s' = maxEntries s"
  shows "capacity_inv N s'"
  using assms Map_delete_length [of k "cache s"]
  by (auto simp: capacity_inv_def Map_delete_distinct)

lemma step_capacity_inv:
  assumes "capacity_inv N s" "0 \<le> N"
  shows "capacity_inv N (step e s)"
proof (cases e)
  case (Set key v a)
  then show ?thesis using assms(1) by (simp add: set_capacity_inv)
next
  case (Delete key)
  then show ?thesis using assms(1) by (auto intro: delete_capacity_inv)
next
  case Clear
  then show ?thesis using assms by (simp add: capacity_inv_def)
next
  case (Tick ms)
  then show ?thesis using assms(1) by (simp add: capacity_inv_def)
next
  case (Fire h)
  from fire_cache [of h s] show ?thesis
  proof
    assume "cache (fire_body HashCache_callback h s) = cache s"
    then show ?thesis using assms(1) Fire by (simp add: capacity_inv_def)
  next
    assume "\<exists>k. cache (fire_body HashCache_callback h s) = Map_delete k (cache s)"
    then show ?thesis using assms(1) Fire by (auto intro: delete_capacity_inv)
  qed
qed

lemma run_capacity_inv:
  assumes "capacity_inv N s" "0 \<le> N"
  shows "capacity_inv N (run evs s)"
  using assms(1)
  by (induction evs arbitrary: s) (simp_all add: run_def step_capacity_inv assms(2))

lemma new_capacity_inv:
  assumes "HashCache_new options ext = Inr s0" "maxEntries s0 = Some N" "0 \<le> N"
  shows "capacity_inv N s0"
proof -
  from assms(1) have "cache s0 = []"
    by (auto simp: HashCache_new_def Let_def split: if_splits)
  with assms(2,3) show ?thesis by (simp add: capacity_inv_def)
qed

lemma insert_fresh_keys:
  assumes "capacity_inv N s" "distinct (HashCache_keys s @ ks)"
  shows "HashCache_keys (run (map (\<lambda>k. Set k (val k) (tt k)) ks) s) =
           drop (List.length (HashCache_keys s @ ks) - nat N) (HashCache_keys s @ ks)"
  using assms
proof (induction ks arbitrary: s)
  case Nil
  then have "List.length (cache s) \<le> nat N" unfolding capacity_inv_def by linarith
  then show ?case by (simp add: run_def HashCache_keys_def)
next
  case (Cons k ks)
  let ?s' = "HashCache_set k (val k) (tt k) s"
  let ?xs = "HashCache_keys s"
  from Cons.prems(1) have d: "distinct (map fst (cache s))" and m: "maxEntries s = Some N"
    and l: "int (List.length (cache s)) \<le> N"
    by (simp_all add: capacity_inv_def)
  from Cons.prems(2) have fresh: "k \<notin> set ?xs" by simp
  have inv': "capacity_inv N ?s'" using Cons.prems(1) by (rule set_capacity_inv)
  have keys_ins: "map fst (Map_set k (val k) (cache s)) = ?xs @ [k]"
    using fresh by (simp add: Map_set_keys HashCache_keys_def)
  have len_ins: "List.length (Map_set k (val k) (cache s)) = Suc (List.length ?xs)"
    using arg_cong [OF keys_ins, of List.length] by simp
  have "cache ?s' = (if N < int (List.length ?xs) + 1 then tl (Map_set k (val k) (cache s))
                     else Map_set k (val k) (cache s))"
    using set_cache_bounded [OF d m, of k "val k" "tt k"] by (simp add: Let_def len_ins)
  then have keys': "HashCache_keys ?s' = (if N < int (List.length ?xs) + 1 then tl (?xs @ [k]) else ?xs @ [k])"
    using keys_ins by (simp add: HashCache_keys_def map_tl)
  have sub: "set (HashCache_keys ?s') \<subseteq> set (?xs @ [k])" "distinct (HashCache_keys ?s')"
    using keys' Cons.prems(2) by (auto simp: distinct_tl dest: list.set_sel(2) [rotated])
  have d': "distinct (HashCache_keys ?s' @ ks)"
    using sub Cons.prems(2) by auto
  have run: "run (Set k (val k) (tt k) # map (\<lambda>k. Set k (val k) (tt k)) ks) s =
             run (map (\<lambda>k. Set k (val k) (tt k)) ks) ?s'"
    by (simp add: run_def)
  show ?case
  proof (cases "N < int (List.length ?xs) + 1")
    case False
    then have "HashCache_keys ?s' = ?xs @ [k]" by (simp add: keys')
    then show ?thesis using Cons.IH [OF inv' d'] by (simp add: run)
  next
    case True
    with l have len: "List.length ?xs = nat N" by (simp add: HashCache_keys_def)
    have k': "HashCache_keys ?s' = tl (?xs @ [k])" using True by (simp add: keys')
    have app: "HashCache_keys ?s' @ ks = tl (?xs @ k # ks)"
      by (cases ?xs) (simp_all add: k')
    have len': "List.length (HashCache_keys ?s') = nat N"
      by (simp add: k' len)
    have "HashCache_keys (run (map (\<lambda>k. Set k (val k) (tt k)) ks) ?s') =
            drop (List.length (HashCache_keys ?s' @ ks) - nat N) (HashCache_keys ?s' @ ks)"
      by (rule Cons.IH [OF inv' d'])
    also have "List.length (HashCache_keys ?s' @ ks) - nat N = List.length ks"
      by (simp add: len')
    also have "drop (List.length ks) (HashCache_keys ?s' @ ks) = drop (Suc (List.length ks)) (?xs @ k # ks)"
      unfolding app by (simp only: drop_Suc)
    also have "Suc (List.length ks) = List.length (?xs @ k # ks) - nat N"
      by (simp add: len)
    finally show ?thesis by (simp only: list.map run)
  qed
qed

lemmas cache_eval =
  run_def HashCache_set_def set_body_def HashCache_handleConstraints_def handleConstraints_body_def
  HashCache_delete_def HashCache_clear_def HashCache_get_def HashCache_keys_def HashCache_size_def
  hasTTL_def hasMaxEntries_def setTimeout_def clearTimeout_def fire_body_def fires_at_def
  Map_set_def Map_delete_def Map_get_def Map_has_def AList.delete_eq Let_def
  default_cache_def bounded_cache_def

text \<open>
  Claim C3. In every state that a cache constructed with \<open>maxEntries = N\<close> (\<open>N \<ge> 0\<close>)
  reaches, a \<open>set\<close> leaves the store after the insertion as it is, or without its first
  (oldest-inserted) entry, and it drops that entry exactly when the store holds more than
  \<open>N\<close> entries after the insertion; the store then holds at most \<open>N\<close> entries; and
  inserting \<open>N + 1\<close> distinct keys into the new cache leaves all but the first.
\<close>

theorem set_evicts_oldest_over_capacity:
  assumes "HashCache_new options ext = Inr s0" and "maxEntries s0 = Some N" and "0 \<le> N"
    and "s = run evs s0"
  shows "cache (HashCache_set key v a s) =
           (let ins = Map_set key v (cache s) in if N < int (List.length ins) then tl ins else ins)
         \<and> int (HashCache_size (HashCache_set key v a s)) \<le> N
         \<and> (distinct ks \<and> int (List.length ks) = N + 1 \<longrightarrow>
              HashCache_keys (run (map (\<lambda>k. Set k (val k) (tt k)) ks) s0) = tl ks)"
proof -
  have inv0: "capacity_inv N s0" using assms(1-3) by (rule new_capacity_inv)
  then have inv: "capacity_inv N s" unfolding assms(4) using assms(3) by (rule run_capacity_inv)
  then have d: "distinct (map fst (cache s))" and m: "maxEntries s = Some N"
    by (simp_all add: capacity_inv_def)
  have 1: "cache (HashCache_set key v a s) =
           (let ins = Map_set key v (cache s) in if N < int (List.length ins) then tl ins else ins)"
    using d m by (rule set_cache_bounded)
  have 2: "int (HashCache_size (HashCache_set key v a s)) \<le> N"
    using set_capacity_inv [OF inv, of key v a] by (simp add: capacity_inv_def HashCache_size_def)
  have 3: "HashCache_keys (run (map (\<lambda>k. Set k (val k) (tt k)) ks) s0) = tl ks"
    if "distinct ks" "int (List.length ks) = N + 1"
  proof -
    from assms(1) have e: "HashCache_keys s0 = []"
      by (auto simp: HashCache_new_def Let_def HashCache_keys_def split: if_splits)
    have "List.length ks - nat N = 1" using that(2) assms(3) by linarith
    then show ?thesis
      using insert_fresh_keys [OF inv0, of ks val tt] that(1) by (simp add: e drop_Suc)
  qed
  from 1 2 3 show ?thesis by blast
qed

theorem set_evicts_oldest_over_capacity_witness:
  "cache (HashCache_set ''c'' ''3'' Omitted
            (run [Set ''a'' ''1'' Omitted, Set ''b'' ''2'' Omitted] (bounded_cache 2))) =
     [(''b'', ''2''), (''c'', ''3'')]
   \<and> HashCache_keys (run [Set ''a'' ''1'' Omitted, Set ''b'' ''2'' Omitted, Set ''c'' ''3'' Omitted]
         (bounded_cache 2)) = [''b'', ''c'']"
proof -
  have new: "HashCache_new (no_options\<lparr>opt_maxEntries := Given 2\<rparr>) () = Inr (bounded_cache 2)"
    by (simp add: HashCache_new_def no_options_def defaults_def bounded_cache_def default_cache_def)
  have m: "maxEntries (bounded_cache 2) = Some 2"
    by (simp add: bounded_cache_def)
  have r: "cache (run [Set ''a'' ''1'' Omitted, Set ''b'' ''2'' Omitted] (bounded_cache 2)) =
             [(''a'', ''1''), (''b'', ''2'')]"
    by (simp add: cache_eval)
  show ?thesis
    using set_evicts_oldest_over_capacity [OF new m _ refl,
        where evs = "[Set ''a'' ''1'' Omitted, Set ''b'' ''2'' Omitted]" and key = "''c''"
          and v = "''3''" and a = Omitted and ks = "[''a'', ''b'', ''c'']"
          and val = "\<lambda>k. if k = ''a'' then ''1'' else if k = ''b'' then ''2'' else ''3''"
          and tt = "\<lambda>k. Omitted"]
    by (simp add: r Map_set_def)
qed

text \<open>
  Claim C10. In a cache with \<open>maxEntries = N\<close> that holds the \<open>N\<close> keys
  \<open>k1, ..., kN\<close> in this insertion order, setting \<open>k1\<close> again replaces its value and
  leaves the order as it is; inserting a new key after that evicts \<open>k1\<close>.
\<close>

theorem reset_keeps_insertion_position:
  assumes "maxEntries s = Some N" and "HashCache_keys s = k1 # rest" and "distinct (k1 # rest)"
    and "int (List.length (k1 # rest)) = N" and "knew \<notin> set (k1 # rest)"
  shows "HashCache_keys (HashCache_set k1 v1 a s) = k1 # rest
         \<and> HashCache_get k1 (HashCache_set k1 v1 a s) = Some v1
         \<and> HashCache_keys (HashCache_set knew v2 b (HashCache_set k1 v1 a s)) = rest @ [knew]"
proof -
  let ?s1 = "HashCache_set k1 v1 a s"
  have d: "distinct (map fst (cache s))"
    using assms(2,3) by (simp add: HashCache_keys_def)
  have keys1: "map fst (Map_set k1 v1 (cache s)) = k1 # rest"
    using assms(2) by (simp add: Map_set_keys HashCache_keys_def)
  have "List.length (Map_set k1 v1 (cache s)) = List.length (k1 # rest)"
    by (metis keys1 length_map)
  then have len1: "int (List.length (Map_set k1 v1 (cache s))) = N"
    using assms(4) by simp
  have c1: "cache ?s1 = Map_set k1 v1 (cache s)"
    using set_cache_bounded [OF d assms(1), of k1 v1 a] len1 by (simp add: Let_def)
  then have 1: "HashCache_keys ?s1 = k1 # rest"
    by (simp add: HashCache_keys_def keys1)
  have 2: "HashCache_get k1 ?s1 = Some v1"
    by (simp add: HashCache_get_def c1 Map_get_set)
  have d1: "distinct (map fst (cache ?s1))"
    using 1 assms(3) by (simp add: HashCache_keys_def)
  have m1: "maxEntries ?s1 = Some N" using assms(1) by simp
  have keys2: "map fst (Map_set knew v2 (cache ?s1)) = (k1 # rest) @ [knew]"
    using 1 assms(5) by (simp add: Map_set_keys HashCache_keys_def)
  have "List.length (Map_set knew v2 (cache ?s1)) = List.length ((k1 # rest) @ [knew])"
    by (metis keys2 length_map)
  then have len2: "int (List.length (Map_set knew v2 (cache ?s1))) = N + 1"
    using assms(4) by simp
  have "cache (HashCache_set knew v2 b ?s1) = tl (Map_set knew v2 (cache ?s1))"
    using set_cache_bounded [OF d1 m1, of knew v2 b] len2 by (simp add: Let_def)
  then have 3: "HashCache_keys (HashCache_set knew v2 b ?s1) = rest @ [knew]"
    by (simp add: HashCache_keys_def map_tl keys2)
  from 1 2 3 show ?thesis by blast
qed

theorem reset_keeps_insertion_position_witness:
  "HashCache_keys (run [Set ''k1'' ''a'' Omitted, Set ''k2'' ''b'' Omitted] (bounded_cache 2)) = [''k1'', ''k2'']
   \<and> HashCache_keys (HashCache_set ''k3'' ''c'' Omitted (HashCache_set ''k1'' ''z'' Omitted
         (run [Set ''k1'' ''a'' Omitted, Set ''k2'' ''b'' Omitted] (bounded_cache 2)))) = [''k2'', ''k3'']"
proof -
  let ?s = "run [Set ''k1'' ''a'' Omitted, Set ''k2'' ''b'' Omitted] (bounded_cache 2)"
  have k: "HashCache_keys ?s = [''k1'', ''k2'']"
    by (simp add: cache_eval)
  have m: "maxEntries ?s = Some 2"
    by (simp add: run_def bounded_cache_def)
  show ?thesis
    using reset_keeps_insertion_position [OF m k, where knew = "''k3''" and ?v1.0 = "''z''"
        and a = Omitted and ?v2.0 = "''c''" and b = Omitted] k
    by simp
qed

subsection \<open>Expiry\<close>

lemma find_handle_in_timers:
  "find (\<lambda>t. handle t = h) ts = Some t \<Longrightarrow> t \<in> set ts"
  by (auto simp: find_Some_iff)

lemma time_step_keeps_untimed_key:
  assumes "\<forall>t \<in> set (timers s). callback t \<noteq> DeleteId key" and "passage_of_time e"
  shows "HashCache_get key (step e s) = HashCache_get key s
         \<and> (\<forall>t \<in> set (timers (step e s)). callback t \<noteq> DeleteId key)"
proof (cases e)
  case (Tick ms)
  then show ?thesis using assms(1) by (simp add: HashCache_get_def)
next
  case (Fire h)
  show ?thesis
  proof (cases "find (\<lambda>t. handle t = h) (timers s)")
    case None
    then show ?thesis using assms(1) Fire by (simp add: fire_body_def)
  next
    case (Some t)
    then have "t \<in> set (timers s)" by (rule find_handle_in_timers)
    with assms(1) have ne: "callback t \<noteq> DeleteId key" by blast
    show ?thesis
    proof (cases "callback t")
      case (DeleteId k)
      with ne have "k \<noteq> key" by simp
      then show ?thesis
        using assms(1) Fire Some DeleteId
        by (simp add: fire_body_def HashCache_get_def Map_get_delete)
    next
      case ThrottleSaveRun
      then show ?thesis
        using assms(1) Fire Some by (simp add: fire_body_def HashCache_get_def)
    qed
  qed
qed (use assms(2) in simp_all)

lemma time_run_keeps_untimed_key:
  assumes "\<forall>t \<in> set (timers s). callback t \<noteq> DeleteId key" and "\<forall>e \<in> set evs. passage_of_time e"
  shows "HashCache_get key (run evs s) = HashCache_get key s"
  using assms
proof (induction evs arbitrary: s)
  case Nil
  then show ?case by (simp add: run_def)
next
  case (Cons e evs)
  from Cons.prems have "passage_of_time e" "\<forall>e \<in> set evs. passage_of_time e" by simp_all
  from time_step_keeps_untimed_key [OF Cons.prems(1) this(1)] Cons.IH [OF _ this(2), of "step e s"]
  show ?case by (simp add: run_def)
qed

text \<open>
  Claim C1, as the code has it. The effective TTL of \<open>set(key, value, ttl)\<close> is the
  override when it is a number and the default of the cache otherwise, also when the
  override is \<open>null\<close>. When the effective TTL is a number, the timer recorded for the
  key is cleared and a new one is armed with that delay; when it is \<open>null\<close>, the armed
  timers stay as they are. On a cache with default TTL \<open>null\<close>, after a \<open>set\<close> with no
  override (or \<open>null\<close>) of a key that no armed timer names, \<open>get\<close> returns the value
  it returned right after the \<open>set\<close>, however much time passes and whichever timers fire.
\<close>

theorem set_arms_timer_by_effective_ttl:
  "timers (HashCache_set key v a s) =
     (case (case a of Given n \<Rightarrow> Some n | _ \<Rightarrow> ttl s) of
        None \<Rightarrow> timers s
      | Some n \<Rightarrow>
          (case Map_get (expiryMap s) key of
             None \<Rightarrow> timers s
           | Some (ts, h) \<Rightarrow> filter (\<lambda>t. handle t \<noteq> h) (timers s)) @
          [\<lparr>handle = nextHandle s, armedAt = now s, delay = n, callback = DeleteId key\<rparr>])
   \<and> (ttl s = None \<and> (a = Omitted \<or> a = Null) \<and>
        (\<forall>t \<in> set (timers s). callback t \<noteq> DeleteId key) \<and>
        (\<forall>e \<in> set evs. passage_of_time e) \<and>
        HashCache_get key (HashCache_set key v a s) = Some v \<longrightarrow>
        timers (HashCache_set key v a s) = timers s \<and>
        HashCache_get key (run evs (HashCache_set key v a s)) = Some v)"
proof -
  have 1: "timers (HashCache_set key v a s) =
     (case (case a of Given n \<Rightarrow> Some n | _ \<Rightarrow> ttl s) of
        None \<Rightarrow> timers s
      | Some n \<Rightarrow>
          (case Map_get (expiryMap s) key of
             None \<Rightarrow> timers s
           | Some (ts, h) \<Rightarrow> filter (\<lambda>t. handle t \<noteq> h) (timers s)) @
          [\<lparr>handle = nextHandle s, armedAt = now s, delay = n, callback = DeleteId key\<rparr>])"
    by (rule set_timers)
  have 2: "timers (HashCache_set key v a s) = timers s \<and>
           HashCache_get key (run evs (HashCache_set key v a s)) = Some v"
    if "ttl s = None" "a = Omitted \<or> a = Null"
      "\<forall>t \<in> set (timers s). callback t \<noteq> DeleteId key" "\<forall>e \<in> set evs. passage_of_time e"
      "HashCache_get key (HashCache_set key v a s) = Some v"
  proof -
    have t: "timers (HashCache_set key v a s) = timers s"
      using that(1,2) by (auto simp: 1)
    with that(3) have "\<forall>t \<in> set (timers (HashCache_set key v a s)). callback t \<noteq> DeleteId key"
      by simp
    from time_run_keeps_untimed_key [OF this that(4)] that(5) t show ?thesis by simp
  qed
  from 1 2 show ?thesis by blast
qed

theorem set_arms_timer_by_effective_ttl_witness:
  "timers (HashCache_set ''k'' ''v'' (Given 250) default_cache) =
     [\<lparr>handle = 0, armedAt = 0, delay = 250, callback = DeleteId ''k''\<rparr>]
   \<and> timers (HashCache_set ''k'' ''v'' Omitted eternal_cache) = []
   \<and> HashCache_get ''k'' (run [Tick 100000, Fire 0, Tick 5] (HashCache_set ''k'' ''v'' Omitted eternal_cache)) = Some ''v''"
proof -
  have g: "HashCache_get ''k'' (HashCache_set ''k'' ''v'' Omitted eternal_cache) = Some ''v''"
    by (simp add: cache_eval eternal_cache_def)
  have e: "ttl eternal_cache = None" "timers eternal_cache = []"
    by (simp_all add: eternal_cache_def default_cache_def)
  have d: "ttl default_cache = Some 3600000" "timers default_cache = []" "expiryMap default_cache = []"
    "nextHandle default_cache = 0" "now default_cache = 0"
    by (simp_all add: default_cache_def)
  show ?thesis
    using set_arms_timer_by_effective_ttl [where s = default_cache and key = "''k''" and v = "''v''"
            and a = "Given 250" and evs = "[]"]
          set_arms_timer_by_effective_ttl [where s = eternal_cache and key = "''k''" and v = "''v''"
            and a = Omitted and evs = "[Tick 100000, Fire 0, Tick 5]"]
    by (simp add: g e d Map_get_def)
qed

text \<open>
  Claim C1 as stated fails: with the default TTL of one hour, a \<open>set\<close> with the
  override \<open>null\<close> arms a timer of one hour for the key.
\<close>

theorem set_null_override_counterexample:
  "timers (HashCache_set ''k'' ''v'' Null default_cache) =
     [\<lparr>handle = 0, armedAt = 0, delay = 3600000, callback = DeleteId ''k''\<rparr>]"
  by (simp add: cache_eval)

text \<open>
  Claim C2 fails on the code. \<open>delete\<close> removes the entry and the record in
  \<open>expiryMap\<close>, but it does not call \<open>clearTimeout\<close>: the timer of the deleted key
  stays armed although the store is empty, and when it fires it deletes the value that a
  later \<open>set\<close> stored with a TTL of 1000 ms, 10 ms after that \<open>set\<close>.
\<close>

theorem delete_leaves_timer_armed:
  "timers (run [Set ''k'' ''a'' (Given 10), Delete ''k''] default_cache) =
     [\<lparr>handle = 0, armedAt = 0, delay = 10, callback = DeleteId ''k''\<rparr>]
   \<and> HashCache_keys (run [Set ''k'' ''a'' (Given 10), Delete ''k''] default_cache) = []
   \<and> HashCache_get ''k''
        (run [Set ''k'' ''a'' (Given 10), Delete ''k'', Set ''k'' ''b'' (Given 1000), Tick 10]
           default_cache) = Some ''b''
   \<and> HashCache_get ''k''
        (run [Set ''k'' ''a'' (Given 10), Delete ''k'', Set ''k'' ''b'' (Given 1000), Tick 10, Fire 0]
           default_cache) = None"
  by (simp add: cache_eval)

section \<open>Properties of the Durable Snapshot Layer\<close>

subsection \<open>The debounce timer\<close>

lemma throttleSaveCache_fields [simp]:
  "cache (throttleSaveCache s) = cache s"
  "expiryMap (throttleSaveCache s) = expiryMap s"
  "ttl (throttleSaveCache s) = ttl s"
  "maxEntries (throttleSaveCache s) = maxEntries s"
  "algorithm (throttleSaveCache s) = algorithm s"
  "encoding (throttleSaveCache s) = encoding s"
  "hash_length (throttleSaveCache s) = hash_length s"
  "now (throttleSaveCache s) = now s"
  "cacheHash (throttleSaveCache s) = cacheHash s"
  "disk (throttleSaveCache s) = disk s"
  "writeCalls (throttleSaveCache s) = writeCalls s"
  "cacheFileExists (throttleSaveCache s) = cacheFileExists s"
  "cacheSaveEvery (throttleSaveCache s) = cacheSaveEvery s"
  by (simp_all add: throttleSaveCache_def setTimeout_def)

lemma throttleSaveCache_timers:
  "timers (throttleSaveCache s) =
     (if throttleSaveCacheTimeout s \<noteq> None then timers s
      else timers s @ [\<lparr>handle = nextHandle s, armedAt = now s, delay = cacheSaveEvery s,
                         callback = ThrottleSaveRun\<rparr>])"
  "throttleSaveCacheTimeout (throttleSaveCache s) =
     (if throttleSaveCacheTimeout s \<noteq> None then throttleSaveCacheTimeout s else Some (nextHandle s))"
  by (simp_all add: throttleSaveCache_def setTimeout_def)

lemma throttleSaveCache_inv: "throttle_inv s \<Longrightarrow> throttle_inv (throttleSaveCache s)"
  by (auto simp: throttle_inv_def throttleSaveCache_timers)

lemma throttleSaveCache_scheduled:
  "throttleSaveCacheTimeout s = Some h \<Longrightarrow> throttleSaveCache s = s"
  by (simp add: throttleSaveCache_def)

text \<open>Steps that keep the durable fields and add no save timer keep the invariant.\<close>

lemma throttle_inv_mono:
  assumes "throttle_inv s"
    and "\<forall>t \<in> set (timers s'). t \<in> set (timers s) \<or> callback t \<noteq> ThrottleSaveRun"
    and "throttleSaveCacheTimeout s' = throttleSaveCacheTimeout s"
  shows "throttle_inv s'"
  using assms by (auto simp: throttle_inv_def)

lemma Persistent_delete_fields [simp]:
  "cache (snd (Persistent_delete key s)) = Map_delete key (cache s)"
  "expiryMap (snd (Persistent_delete key s)) = Map_delete key (expiryMap s)"
  "ttl (snd (Persistent_delete key s)) = ttl s"
  "maxEntries (snd (Persistent_delete key s)) = maxEntries s"
  "algorithm (snd (Persistent_delete key s)) = algorithm s"
  "encoding (snd (Persistent_delete key s)) = encoding s"
  "hash_length (snd (Persistent_delete key s)) = hash_length s"
  "now (snd (Persistent_delete key s)) = now s"
  "cacheHash (snd (Persistent_delete key s)) = cacheHash s"
  "disk (snd (Persistent_delete key s)) = disk s"
  "writeCalls (snd (Persistent_delete key s)) = writeCalls s"
  "cacheFileExists (snd (Persistent_delete key s)) = cacheFileExists s"
  "cacheSaveEvery (snd (Persistent_delete key s)) = cacheSaveEvery s"
  by (simp_all add: Persistent_delete_def HashCache_delete_def Let_def)

lemma Persistent_delete_eq:
  "snd (Persistent_delete key s) =
     throttleSaveCache (s\<lparr>cache := Map_delete key (cache s), expiryMap := Map_delete key (expiryMap s)\<rparr>)"
  by (simp add: Persistent_delete_def HashCache_delete_def Let_def)

lemma Persistent_delete_inv: "throttle_inv s \<Longrightarrow> throttle_inv (snd (Persistent_delete key s))"
  unfolding Persistent_delete_eq
  by (rule throttleSaveCache_inv) (simp add: throttle_inv_def)

lemma Persistent_delete_scheduled:
  "throttleSaveCacheTimeout s = Some h \<Longrightarrow>
   throttleSaveCacheTimeout (snd (Persistent_delete key s)) = Some h \<and>
   timers (snd (Persistent_delete key s)) = timers s"
  unfolding Persistent_delete_eq by (simp add: throttleSaveCache_def)

lemma handleConstraints_body_phases:
  "handleConstraints_body this_delete key ttl_arg s =
     (let s3 = arm_expiry key ttl_arg s
      in if hasMaxEntries (- 1) s3 then
           (case cache s3 of [] \<Rightarrow> s3 | (first, v) # rest \<Rightarrow> snd (this_delete first s3))
         else s3)"
  by (simp add: handleConstraints_body_def arm_expiry_def)

lemma arm_expiry_fields [simp]:
  "cache (arm_expiry key t s) = cache s"
  "ttl (arm_expiry key t s) = ttl s"
  "maxEntries (arm_expiry key t s) = maxEntries s"
  "algorithm (arm_expiry key t s) = algorithm s"
  "encoding (arm_expiry key t s) = encoding s"
  "hash_length (arm_expiry key t s) = hash_length s"
  "now (arm_expiry key t s) = now s"
  by (auto simp: arm_expiry_def Let_def setTimeout_def clearTimeout_def split: option.splits prod.splits)

lemma arm_expiry_durable [simp]:
  "cacheHash (arm_expiry key t s) = cacheHash s"
  "disk (arm_expiry key t s) = disk s"
  "writeCalls (arm_expiry key t s) = writeCalls s"
  "cacheFileExists (arm_expiry key t s) = cacheFileExists s"
  "cacheSaveEvery (arm_expiry key t s) = cacheSaveEvery s"
  "throttleSaveCacheTimeout (arm_expiry key t s) = throttleSaveCacheTimeout s"
  by (auto simp: arm_expiry_def Let_def setTimeout_def clearTimeout_def split: option.splits prod.splits)

lemma arm_expiry_timers:
  "t \<in> set (timers (arm_expiry key ttl_arg s)) \<Longrightarrow> t \<in> set (timers s) \<or> callback t = DeleteId key"
  by (auto simp: arm_expiry_def Let_def setTimeout_def clearTimeout_def split: option.splits prod.splits if_splits)

lemma arm_expiry_inv: "throttle_inv s \<Longrightarrow> throttle_inv (arm_expiry key t s)"
  by (rule throttle_inv_mono [where s = s]) (auto dest: arm_expiry_timers)

lemma hasMaxEntries_arm [simp]: "hasMaxEntries n (arm_expiry key t s) = hasMaxEntries n s"
  by (simp add: hasMaxEntries_def cong: option.case_cong)

lemma throttle_inv_cache_update [simp]: "throttle_inv (s\<lparr>cache := c\<rparr>) = throttle_inv s"
  by (simp add: throttle_inv_def)

text \<open>The state after the overridden \<open>set\<close>, phase by phase.\<close>

lemma Persistent_set_phases:
  "Persistent_set key v a s =
     (let s1 = s\<lparr>cache := Map_set key v (cache s)\<rparr>;
          s3 = arm_expiry key (default_param a (ttl s)) s1
      in throttleSaveCache
           (if hasMaxEntries (- 1) s1 then
              (case cache s1 of [] \<Rightarrow> s3 | (first, w) # rest \<Rightarrow> snd (Persistent_delete first s3))
            else s3))"
proof -
  have idem: "throttleSaveCache (throttleSaveCache x) = throttleSaveCache x" for x
    by (simp add: throttleSaveCache_def setTimeout_def)
  show ?thesis
    by (simp add: Persistent_set_def set_body_def Persistent_handleConstraints_def
        handleConstraints_body_phases Let_def idem)
qed

lemma Persistent_set_durable [simp]:
  "cacheHash (Persistent_set key v a s) = cacheHash s"
  "disk (Persistent_set key v a s) = disk s"
  "writeCalls (Persistent_set key v a s) = writeCalls s"
  "cacheFileExists (Persistent_set key v a s) = cacheFileExists s"
  "cacheSaveEvery (Persistent_set key v a s) = cacheSaveEvery s"
  "now (Persistent_set key v a s) = now s"
  "ttl (Persistent_set key v a s) = ttl s"
  "maxEntries (Persistent_set key v a s) = maxEntries s"
  "algorithm (Persistent_set key v a s) = algorithm s"
  "encoding (Persistent_set key v a s) = encoding s"
  "hash_length (Persistent_set key v a s) = hash_length s"
  by (simp_all add: Persistent_set_phases Let_def split: list.splits)

lemma Persistent_set_inv: "throttle_inv s \<Longrightarrow> throttle_inv (Persistent_set key v a s)"
  by (auto simp: Persistent_set_phases Let_def split: list.splits
      intro!: throttleSaveCache_inv Persistent_delete_inv arm_expiry_inv)

lemma Persistent_set_scheduled:
  "throttleSaveCacheTimeout s = Some h \<Longrightarrow> throttleSaveCacheTimeout (Persistent_set key v a s) = Some h"
  by (simp add: Persistent_set_phases Let_def throttleSaveCache_timers Persistent_delete_scheduled
      split: list.splits)

lemma Persistent_set_cache:
  "cache (Persistent_set key v a s) = cache (HashCache_set key v a s)"
  by (simp add: Persistent_set_phases Let_def HashCache_set_def set_body_def
      HashCache_handleConstraints_def handleConstraints_body_phases split: list.splits)

lemma fold_clearTimeout_timers:
  "set (timers (fold (\<lambda>(k, ts, timeout). clearTimeout timeout) em s)) \<subseteq> set (timers s)"
proof (induction em arbitrary: s)
  case Nil
  then show ?case by simp
next
  case (Cons e em)
  obtain k ts h where e: "e = (k, ts, h)" by (cases e)
  have "set (timers (fold (\<lambda>(k, ts, timeout). clearTimeout timeout) em (clearTimeout h s)))
          \<subseteq> set (timers (clearTimeout h s))"
    by (rule Cons.IH)
  also have "\<dots> \<subseteq> set (timers s)" by (auto simp: clearTimeout_def)
  finally show ?case by (simp add: e)
qed

lemma HashCache_clear_timers: "t \<in> set (timers (HashCache_clear s)) \<Longrightarrow> t \<in> set (timers s)"
  using fold_clearTimeout_timers [of "expiryMap s" "s\<lparr>cache := []\<rparr>"]
  by (auto simp: HashCache_clear_def Let_def)

lemma fold_clearTimeout_durable [simp]:
  "cacheHash (fold (\<lambda>(k, ts, timeout). clearTimeout timeout) em s) = cacheHash s"
  "disk (fold (\<lambda>(k, ts, timeout). clearTimeout timeout) em s) = disk s"
  "writeCalls (fold (\<lambda>(k, ts, timeout). clearTimeout timeout) em s) = writeCalls s"
  "cacheFileExists (fold (\<lambda>(k, ts, timeout). clearTimeout timeout) em s) = cacheFileExists s"
  "cacheSaveEvery (fold (\<lambda>(k, ts, timeout). clearTimeout timeout) em s) = cacheSaveEvery s"
  "throttleSaveCacheTimeout (fold (\<lambda>(k, ts, timeout). clearTimeout timeout) em s) = throttleSaveCacheTimeout s"
  by (induction em arbitrary: s; simp add: case_prod_unfold clearTimeout_def)+

lemma Persistent_clear_durable [simp]:
  "cacheHash (Persistent_clear s) = cacheHash s"
  "disk (Persistent_clear s) = disk s"
  "writeCalls (Persistent_clear s) = writeCalls s"
  "cacheFileExists (Persistent_clear s) = cacheFileExists s"
  "cacheSaveEvery (Persistent_clear s) = cacheSaveEvery s"
  by (simp_all add: Persistent_clear_def HashCache_clear_def Let_def)

lemma HashCache_clear_throttle [simp]:
  "throttleSaveCacheTimeout (HashCache_clear s) = throttleSaveCacheTimeout s"
  by (simp add: HashCache_clear_def Let_def)

lemma Persistent_clear_inv: "throttle_inv s \<Longrightarrow> throttle_inv (Persistent_clear s)"
  unfolding Persistent_clear_def
  by (rule throttleSaveCache_inv, rule throttle_inv_mono [where s = s])
     (auto dest: HashCache_clear_timers)

lemma Persistent_clear_scheduled:
  "throttleSaveCacheTimeout s = Some h \<Longrightarrow> throttleSaveCacheTimeout (Persistent_clear s) = Some h"
  by (simp add: Persistent_clear_def throttleSaveCache_timers)

subsection \<open>The save run and the runs of the layer\<close>

lemma computeAnyHash_options:
  "algorithm s' = algorithm s \<Longrightarrow> encoding s' = encoding s \<Longrightarrow> hash_length s' = hash_length s \<Longrightarrow>
   computeAnyHash D s' v options = computeAnyHash D s v options"
  by (simp add: computeAnyHash_def computeBufferHash_def)

lemma saveCache_existing:
  "cacheFileExists s \<Longrightarrow>
   saveCache ok s = writeFile ok (stringified (Object_fromEntries (cache s))) s"
  by (simp add: saveCache_def ensureCacheFileExists_def)

lemma throttleSaveRun_fields [simp]:
  "cache (throttleSaveRun D ok s) = cache s"
  "expiryMap (throttleSaveRun D ok s) = expiryMap s"
  "timers (throttleSaveRun D ok s) = timers s"
  "now (throttleSaveRun D ok s) = now s"
  "algorithm (throttleSaveRun D ok s) = algorithm s"
  "encoding (throttleSaveRun D ok s) = encoding s"
  "hash_length (throttleSaveRun D ok s) = hash_length s"
  "throttleSaveCacheTimeout (throttleSaveRun D ok s) = None"
  by (auto simp: throttleSaveRun_def Let_def saveCache_def ensureCacheFileExists_def writeFile_def
      split: prod.splits promise.splits if_splits)

lemma throttleSaveRun_cacheHash:
  "cacheHash (throttleSaveRun D ok s) = Some (computeAnyHash D s (Object_fromEntries (cache s)) no_options)"
  by (auto simp: throttleSaveRun_def Let_def saveCache_def ensureCacheFileExists_def writeFile_def
      split: prod.splits promise.splits if_splits)

lemma throttleSaveRun_unchanged:
  "Some (computeAnyHash D s (Object_fromEntries (cache s)) no_options) = cacheHash s \<Longrightarrow>
   throttleSaveRun D ok s = s\<lparr>throttleSaveCacheTimeout := None\<rparr>"
  by (simp add: throttleSaveRun_def Let_def)

lemma throttleSaveRun_changed:
  "Some (computeAnyHash D s (Object_fromEntries (cache s)) no_options) \<noteq> cacheHash s \<Longrightarrow>
   cacheFileExists s \<Longrightarrow>
   throttleSaveRun D ok s =
     (snd (writeFile ok (stringified (Object_fromEntries (cache s)))
        (s\<lparr>cacheHash := Some (computeAnyHash D s (Object_fromEntries (cache s)) no_options)\<rparr>)))
     \<lparr>throttleSaveCacheTimeout := None\<rparr>"
  by (simp add: throttleSaveRun_def Let_def saveCache_existing)

lemma throttleSaveRun_existing:
  assumes "cacheFileExists s"
  shows "cacheFileExists (throttleSaveRun D ok s)"
    and "writeCalls (throttleSaveRun D ok s) =
           (if cacheHash s = Some (computeAnyHash D s (Object_fromEntries (cache s)) no_options)
            then writeCalls s else Suc (writeCalls s))"
    and "disk (throttleSaveRun D ok s) =
           (if cacheHash s = Some (computeAnyHash D s (Object_fromEntries (cache s)) no_options) \<or> \<not> ok
            then disk s else Some (stringified (Object_fromEntries (cache s))))"
proof -
  let ?h = "computeAnyHash D s (Object_fromEntries (cache s)) no_options"
  show "cacheFileExists (throttleSaveRun D ok s)"
    "writeCalls (throttleSaveRun D ok s) = (if cacheHash s = Some ?h then writeCalls s else Suc (writeCalls s))"
    "disk (throttleSaveRun D ok s) =
       (if cacheHash s = Some ?h \<or> \<not> ok then disk s else Some (stringified (Object_fromEntries (cache s))))"
  proof (atomize (full), cases "Some ?h = cacheHash s")
    case True
    then show "cacheFileExists (throttleSaveRun D ok s) \<and>
      writeCalls (throttleSaveRun D ok s) = (if cacheHash s = Some ?h then writeCalls s else Suc (writeCalls s)) \<and>
      disk (throttleSaveRun D ok s) =
       (if cacheHash s = Some ?h \<or> \<not> ok then disk s else Some (stringified (Object_fromEntries (cache s))))"
      using assms True [symmetric] by (simp add: throttleSaveRun_unchanged [OF True])
  next
    case False
    then have ne: "cacheHash s \<noteq> Some ?h" by (rule not_sym)
    show "cacheFileExists (throttleSaveRun D ok s) \<and>
      writeCalls (throttleSaveRun D ok s) = (if cacheHash s = Some ?h then writeCalls s else Suc (writeCalls s)) \<and>
      disk (throttleSaveRun D ok s) =
       (if cacheHash s = Some ?h \<or> \<not> ok then disk s else Some (stringified (Object_fromEntries (cache s))))"
      using assms ne
      by (cases ok) (simp_all add: throttleSaveRun_changed [OF False assms] writeFile_def)
  qed
qed

lemma throttleSaveRun_twice:
  "writeCalls (throttleSaveRun D ok2 (throttleSaveRun D ok s)) = writeCalls (throttleSaveRun D ok s)"
proof -
  let ?s1 = "throttleSaveRun D ok s"
  have c: "cache ?s1 = cache s" by simp
  have "computeAnyHash D ?s1 (Object_fromEntries (cache ?s1)) no_options =
        computeAnyHash D s (Object_fromEntries (cache s)) no_options"
    unfolding c by (rule computeAnyHash_options) simp_all
  then have "Some (computeAnyHash D ?s1 (Object_fromEntries (cache ?s1)) no_options) = cacheHash ?s1"
    by (simp add: throttleSaveRun_cacheHash)
  then show ?thesis
    by (simp add: throttleSaveRun_def [of D ok2 ?s1] Let_def)
qed

lemma clearTimeout_durable [simp]:
  "cacheHash (clearTimeout h s) = cacheHash s"
  "disk (clearTimeout h s) = disk s"
  "writeCalls (clearTimeout h s) = writeCalls s"
  "cacheFileExists (clearTimeout h s) = cacheFileExists s"
  "cacheSaveEvery (clearTimeout h s) = cacheSaveEvery s"
  "throttleSaveCacheTimeout (clearTimeout h s) = throttleSaveCacheTimeout s"
  by (simp_all add: clearTimeout_def)

lemma find_handle:
  "find (\<lambda>t. handle t = h) ts = Some t \<Longrightarrow> t \<in> set ts \<and> handle t = h"
  by (auto simp: find_Some_iff)

lemma pstep_cacheFileExists: "cacheFileExists s \<Longrightarrow> cacheFileExists (pstep D e s)"
proof (cases e)
  case (PFire h ok)
  assume c: "cacheFileExists s"
  show ?thesis
  proof (cases "find (\<lambda>t. handle t = h) (timers s)")
    case None
    then show ?thesis using c PFire by (simp add: fire_body_def)
  next
    case (Some t)
    then show ?thesis using c PFire
      by (cases "callback t") (auto simp: fire_body_def throttleSaveRun_existing)
  qed
qed simp_all

lemma pstep_throttle_inv: "throttle_inv s \<Longrightarrow> throttle_inv (pstep D e s)"
proof (cases e)
  case (PSet key v a)
  assume "throttle_inv s" then show ?thesis using PSet by (simp add: Persistent_set_inv)
next
  case (PDelete key)
  assume "throttle_inv s" then show ?thesis using PDelete by (simp add: Persistent_delete_inv)
next
  case PClear
  assume "throttle_inv s" then show ?thesis using PClear by (simp add: Persistent_clear_inv)
next
  case (PTick ms)
  assume "throttle_inv s" then show ?thesis using PTick by (simp add: throttle_inv_def)
next
  case (PFire h ok)
  assume inv: "throttle_inv s"
  show ?thesis
  proof (cases "find (\<lambda>t. handle t = h) (timers s)")
    case None
    then show ?thesis using inv PFire by (simp add: fire_body_def)
  next
    case (Some t)
    note t = find_handle [OF Some]
    have inv': "throttle_inv (clearTimeout h s)"
      using inv by (auto simp: throttle_inv_def)
    show ?thesis
    proof (cases "callback t")
      case (DeleteId k)
      then show ?thesis using inv inv' PFire Some
        by (simp add: fire_body_def Persistent_delete_inv)
    next
      case ThrottleSaveRun
      with inv t have "throttleSaveCacheTimeout s = Some h"
        by (auto simp: throttle_inv_def)
      with inv have "\<forall>u \<in> set (timers s). callback u = ThrottleSaveRun \<longrightarrow> handle u = h"
        by (auto simp: throttle_inv_def)
      then have "throttle_inv (throttleSaveRun D ok (clearTimeout h s))"
        by (auto simp: throttle_inv_def)
      then show ?thesis using inv PFire Some ThrottleSaveRun
        by (simp add: fire_body_def)
    qed
  qed
qed

lemma pstep_writes_at_most_once:
  "cacheFileExists s \<Longrightarrow> writeCalls (pstep D e s) \<le> writeCalls s + 1"
proof (cases e)
  case (PFire h ok)
  assume c: "cacheFileExists s"
  show ?thesis
  proof (cases "find (\<lambda>t. handle t = h) (timers s)")
    case None
    then show ?thesis using PFire by (simp add: fire_body_def)
  next
    case (Some t)
    then show ?thesis using c PFire
      by (cases "callback t") (auto simp: fire_body_def throttleSaveRun_existing)
  qed
qed simp_all

text \<open>While the save timer \<open>h\<close> is armed and does not fire, nothing is written.\<close>

lemma pstep_while_scheduled:
  assumes "throttle_inv s" and "throttleSaveCacheTimeout s = Some h" and "\<not> fires_timer h e"
  shows "writeCalls (pstep D e s) = writeCalls s \<and> disk (pstep D e s) = disk s \<and>
         cacheHash (pstep D e s) = cacheHash s \<and>
         throttleSaveCacheTimeout (pstep D e s) = Some h"
proof (cases e)
  case (PSet key v a)
  then show ?thesis using assms(2) by (simp add: Persistent_set_scheduled)
next
  case (PDelete key)
  then show ?thesis using assms(2) by (simp add: Persistent_delete_scheduled)
next
  case PClear
  then show ?thesis using assms(2) by (simp add: Persistent_clear_scheduled)
next
  case (PTick ms)
  then show ?thesis using assms(2) by simp
next
  case (PFire h' ok)
  with assms(3) have ne: "h' \<noteq> h" by simp
  show ?thesis
  proof (cases "find (\<lambda>t. handle t = h') (timers s)")
    case None
    then show ?thesis using assms(2) PFire by (simp add: fire_body_def)
  next
    case (Some t)
    note t = find_handle [OF Some]
    have "callback t \<noteq> ThrottleSaveRun"
      using assms(1,2) t ne by (auto simp: throttle_inv_def)
    then obtain k where k: "callback t = DeleteId k" by (cases "callback t") auto
    have "throttleSaveCacheTimeout (clearTimeout h' s) = Some h"
      using assms(2) by simp
    from Persistent_delete_scheduled [OF this, of k] show ?thesis
      using assms(2) PFire Some k by (simp add: fire_body_def)
  qed
qed

lemma prun_while_scheduled:
  assumes "throttle_inv s" and "throttleSaveCacheTimeout s = Some h"
    and "\<forall>e \<in> set evs. \<not> fires_timer h e"
  shows "writeCalls (prun D evs s) = writeCalls s \<and> disk (prun D evs s) = disk s \<and>
         cacheHash (prun D evs s) = cacheHash s \<and>
         throttleSaveCacheTimeout (prun D evs s) = Some h \<and> throttle_inv (prun D evs s)"
  using assms
proof (induction evs arbitrary: s)
  case Nil
  then show ?case by (simp add: prun_def)
next
  case (Cons e evs)
  from Cons.prems have e: "\<not> fires_timer h e" and evs: "\<forall>e \<in> set evs. \<not> fires_timer h e"
    by simp_all
  note st = pstep_while_scheduled [OF Cons.prems(1,2) e, of D]
  have inv: "throttle_inv (pstep D e s)" using Cons.prems(1) by (rule pstep_throttle_inv)
  from Cons.IH [OF inv _ evs] st show ?case by (simp add: prun_def)
qed

lemma pstep_cacheHash:
  "\<not> runs_save e s \<Longrightarrow> cacheHash (pstep D e s) = cacheHash s"
proof (cases e)
  case (PFire h ok)
  assume n: "\<not> runs_save e s"
  show ?thesis
  proof (cases "find (\<lambda>t. handle t = h) (timers s)")
    case None
    then show ?thesis using PFire by (simp add: fire_body_def)
  next
    case (Some t)
    then show ?thesis using n PFire
      by (cases "callback t") (auto simp: fire_body_def)
  qed
qed simp_all

subsection \<open>The startup load\<close>

lemma load_entry_fields [simp]:
  "expiryMap (load_entry e s) = expiryMap s"
  "timers (load_entry e s) = timers s"
  "nextHandle (load_entry e s) = nextHandle s"
  "now (load_entry e s) = now s"
  "ttl (load_entry e s) = ttl s"
  "maxEntries (load_entry e s) = maxEntries s"
  "cacheHash (load_entry e s) = cacheHash s"
  "disk (load_entry e s) = disk s"
  "writeCalls (load_entry e s) = writeCalls s"
  "cacheFileExists (load_entry e s) = cacheFileExists s"
  "cacheSaveEvery (load_entry e s) = cacheSaveEvery s"
  "throttleSaveCacheTimeout (load_entry e s) = throttleSaveCacheTimeout s"
  by (simp_all add: load_entry_def split: json.splits)

lemma fold_load_entry_fields [simp]:
  "expiryMap (fold load_entry es s) = expiryMap s"
  "timers (fold load_entry es s) = timers s"
  "nextHandle (fold load_entry es s) = nextHandle s"
  "now (fold load_entry es s) = now s"
  "ttl (fold load_entry es s) = ttl s"
  "maxEntries (fold load_entry es s) = maxEntries s"
  "cacheHash (fold load_entry es s) = cacheHash s"
  "disk (fold load_entry es s) = disk s"
  "writeCalls (fold load_entry es s) = writeCalls s"
  "cacheFileExists (fold load_entry es s) = cacheFileExists s"
  "cacheSaveEvery (fold load_entry es s) = cacheSaveEvery s"
  "throttleSaveCacheTimeout (fold load_entry es s) = throttleSaveCacheTimeout s"
  by (induction es arbitrary: s; simp)+

lemma fold_load_entry_distinct:
  "distinct (map fst (cache s)) \<Longrightarrow> distinct (map fst (cache (fold load_entry es s)))"
proof (induction es arbitrary: s)
  case Nil
  then show ?case by simp
next
  case (Cons e es)
  have "distinct (map fst (cache (load_entry e s)))"
    using Cons.prems by (simp add: load_entry_def Map_set_distinct split: json.splits)
  then show ?case using Cons.IH by simp
qed


lemma cacheFileExists_idem:
  "cacheFileExists s \<Longrightarrow> s\<lparr>cacheFileExists := True, cacheHash := h\<rparr> = s\<lparr>cacheHash := h\<rparr>"
  by (cases s) simp

lemma computeAnyHash_durable [simp]:
  "computeAnyHash D (s\<lparr>cacheFileExists := b\<rparr>) v options = computeAnyHash D s v options"
  "computeAnyHash D (clearTimeout h s) v options = computeAnyHash D s v options"
  "computeAnyHash D (s\<lparr>now := t\<rparr>) v options = computeAnyHash D s v options"
  "computeAnyHash D (s\<lparr>disk := d\<rparr>) v options = computeAnyHash D s v options"
  "computeAnyHash D (s\<lparr>writeCalls := w\<rparr>) v options = computeAnyHash D s v options"
  "computeAnyHash D (s\<lparr>cacheHash := c\<rparr>) v options = computeAnyHash D s v options"
  "computeAnyHash D (s\<lparr>cache := m\<rparr>) v options = computeAnyHash D s v options"
  by (simp_all add: computeAnyHash_def computeBufferHash_def clearTimeout_def)

lemma loadCache_existing_file:
  assumes "disk s = Some data"
  shows "loadCache D ok s =
     (let parsed = (case data of Unparseable \<Rightarrow> JObject [] | Document v \<Rightarrow> v);
          s2 = s\<lparr>cacheFileExists := True,
                 cacheHash := Some (computeAnyHash D s parsed no_options)\<rparr>
      in case Object_entries parsed of
           None \<Rightarrow> (Rejected (TypeError ''Cannot convert undefined or null to object''), s2)
         | Some entries \<Rightarrow> (Resolved (), fold load_entry entries s2))"
proof (cases "cacheFileExists s")
  case True
  then show ?thesis
    using assms
    by (simp add: loadCache_def ensureCacheFileExists_def Let_def cacheFileExists_idem [OF True])
next
  case False
  then show ?thesis
    using assms by (simp add: loadCache_def ensureCacheFileExists_def Let_def)
qed

lemma loadCache_missing_file:
  assumes "disk s = None" "\<not> cacheFileExists s"
  shows "loadCache D True s =
           (Resolved (),
            s\<lparr>disk := Some (Document (JObject [])), writeCalls := Suc (writeCalls s),
              cacheFileExists := True,
              cacheHash := Some (computeAnyHash D s (JObject []) no_options)\<rparr>)"
    and "loadCache D False s = (Rejected (IOError ''writeFile''), s\<lparr>writeCalls := Suc (writeCalls s)\<rparr>)"
proof -
  have o: "own_properties ([] :: (string \<times> json) list) = []"
    by (simp add: own_properties_def)
  show "loadCache D True s =
           (Resolved (),
            s\<lparr>disk := Some (Document (JObject [])), writeCalls := Suc (writeCalls s),
              cacheFileExists := True,
              cacheHash := Some (computeAnyHash D s (JObject []) no_options)\<rparr>)"
    using assms
    by (simp add: loadCache_def ensureCacheFileExists_def writeFile_def stringified_def Let_def o)
  show "loadCache D False s = (Rejected (IOError ''writeFile''), s\<lparr>writeCalls := Suc (writeCalls s)\<rparr>)"
    using assms
    by (simp add: loadCache_def ensureCacheFileExists_def writeFile_def)
qed

text \<open>What a load that resolves leaves behind.\<close>

lemma loadCache_resolved:
  assumes "loadCache D ok s = (Resolved (), s')"
  shows "cacheFileExists s' \<and> timers s' = timers s \<and> expiryMap s' = expiryMap s \<and>
         now s' = now s \<and> nextHandle s' = nextHandle s \<and> cacheSaveEvery s' = cacheSaveEvery s \<and>
         throttleSaveCacheTimeout s' = throttleSaveCacheTimeout s \<and>
         (distinct (map fst (cache s)) \<longrightarrow> distinct (map fst (cache s')))"
proof (cases "disk s")
  case (Some data)
  show ?thesis
    using assms fold_load_entry_distinct
    unfolding loadCache_existing_file [OF Some] Let_def
    by (auto split: option.splits)
next
  case None
  show ?thesis
  proof (cases "cacheFileExists s")
    case True
    then show ?thesis using assms None
      by (simp add: loadCache_def ensureCacheFileExists_def)
  next
    case False
    show ?thesis
      using assms loadCache_missing_file [OF None False, of D]
      by (cases ok) auto
  qed
qed

lemma new_fields:
  assumes "PersistentHashCache_new options file = Inr s"
  shows "cache s = [] \<and> expiryMap s = [] \<and> timers s = [] \<and> nextHandle s = 0 \<and> now s = 0 \<and>
         cacheSaveEvery s = 5000 \<and> cacheHash s = None \<and> \<not> cacheFileExists s \<and>
         throttleSaveCacheTimeout s = None \<and> disk s = file \<and> writeCalls s = 0"
  using assms
  by (auto simp: PersistentHashCache_new_def HashCache_new_def Let_def split: if_splits)

subsection \<open>Worked example: a new layer over a missing file\<close>

lemmas json_eval =
  computeAnyHash_def computeBufferHash_def createHash_def hash_update_def hash_digest_def
  sha256_hex_examples slice0_def Buffer_from_def JSON_stringify_def Object_fromEntries_def
  own_properties_def is_array_index_def is_digit_def read_nat_def digit_val_def
  quote_def escape_char_def show_int_def show_nat.simps no_options_def stringified_def

lemmas durable_eval =
  prun_def Persistent_set_def set_body_def Persistent_handleConstraints_def
  handleConstraints_body_def Persistent_delete_def HashCache_delete_def Persistent_clear_def
  HashCache_clear_def throttleSaveCache_def throttleSaveRun_def saveCache_def
  ensureCacheFileExists_def writeFile_def loadCache_def constructor_load_def load_entry_def
  setTimeout_def clearTimeout_def fire_body_def fires_at_def hasTTL_def hasMaxEntries_def
  Map_set_def Map_delete_def Map_get_def Map_has_def AList.delete_eq Let_def
  HashCache_get_def HashCache_keys_def default_persistent_def

lemma example_new: "PersistentHashCache_new no_options file = Inr (default_persistent file)"
  by (simp add: PersistentHashCache_new_def HashCache_new_def no_options_def defaults_def
      default_persistent_def)

lemma example_loaded:
  "constructor_load sha256_hex True (default_persistent None) =
     (Resolved (),
      (default_persistent (Some (Document (JObject []))))
        \<lparr>timers := [\<lparr>handle = 0, armedAt = 0, delay = 5000, callback = ThrottleSaveRun\<rparr>],
         nextHandle := 1, cacheHash := Some ''44136fa355b367'', cacheFileExists := True,
         throttleSaveCacheTimeout := Some 0, writeCalls := 1\<rparr>)"
  by (simp add: durable_eval json_eval)

lemma example_set:
  "Persistent_set ''x'' ''1'' Omitted (snd (constructor_load sha256_hex True (default_persistent None))) =
     (default_persistent (Some (Document (JObject []))))
        \<lparr>cache := [(''x'', ''1'')], expiryMap := [(''x'', 0, 1)],
         timers := [\<lparr>handle = 0, armedAt = 0, delay = 5000, callback = ThrottleSaveRun\<rparr>,
                    \<lparr>handle = 1, armedAt = 0, delay = 3600000, callback = DeleteId ''x''\<rparr>],
         nextHandle := 2, cacheHash := Some ''44136fa355b367'', cacheFileExists := True,
         throttleSaveCacheTimeout := Some 0, writeCalls := 1\<rparr>"
  unfolding example_loaded by (simp add: durable_eval)

lemma example_hash_x: "computeAnyHash sha256_hex s (Object_fromEntries [(''x'', ''1'')]) no_options =
    take (nat (hash_length s)) ''013bdcb2b4d38b7d26f13f2a48631e9a5ae45530c3ef0e5946668d4f1892baa1''" if "0 \<le> hash_length s"
  using that by (simp add: json_eval)

lemma example_file_x:
  "stringified (Object_fromEntries [(''x'', ''1'')]) = Document (JObject [(''x'', JString ''1'')])"
  by (simp add: json_eval)

lemma example_saved:
  "prun sha256_hex [PSet ''x'' ''1'' Omitted, PTick 5000, PFire 0 ok]
     (snd (constructor_load sha256_hex True (default_persistent None))) =
     (default_persistent (Some (Document (JObject (if ok then [(''x'', JString ''1'')] else [])))))
        \<lparr>cache := [(''x'', ''1'')], expiryMap := [(''x'', 0, 1)],
         timers := [\<lparr>handle = 1, armedAt = 0, delay = 3600000, callback = DeleteId ''x''\<rparr>],
         nextHandle := 2, now := 5000, cacheHash := Some ''013bdcb2b4d38b'', cacheFileExists := True,
         throttleSaveCacheTimeout := None, writeCalls := 2\<rparr>"
proof -
  have "prun sha256_hex [PSet ''x'' ''1'' Omitted, PTick 5000, PFire 0 ok]
     (snd (constructor_load sha256_hex True (default_persistent None))) =
     prun sha256_hex [PTick 5000, PFire 0 ok]
       (Persistent_set ''x'' ''1'' Omitted (snd (constructor_load sha256_hex True (default_persistent None))))"
    by (simp add: prun_def)
  also have "\<dots> = (default_persistent (Some (Document (JObject (if ok then [(''x'', JString ''1'')] else [])))))
        \<lparr>cache := [(''x'', ''1'')], expiryMap := [(''x'', 0, 1)],
         timers := [\<lparr>handle = 1, armedAt = 0, delay = 3600000, callback = DeleteId ''x''\<rparr>],
         nextHandle := 2, now := 5000, cacheHash := Some ''013bdcb2b4d38b'', cacheFileExists := True,
         throttleSaveCacheTimeout := None, writeCalls := 2\<rparr>"
    unfolding example_set
    by (cases ok) (simp_all add: prun_def fire_body_def fires_at_def clearTimeout_def
          throttleSaveRun_def saveCache_def ensureCacheFileExists_def writeFile_def Let_def
          example_hash_x example_file_x default_persistent_def)
  finally show ?thesis .
qed

subsection \<open>States reached after a resolved load\<close>

lemma prun_reachable_inv:
  "throttle_inv s \<Longrightarrow> cacheFileExists s \<Longrightarrow>
   throttle_inv (prun D evs s) \<and> cacheFileExists (prun D evs s)"
  by (induction evs arbitrary: s) (simp_all add: prun_def pstep_throttle_inv pstep_cacheFileExists)

subsection \<open>Save and load again\<close>



subsection \<open>Well-formed timers\<close>

lemma timers_wf_cache_update:
  "timers_wf s \<Longrightarrow> distinct (map fst c) \<Longrightarrow> timers_wf (s\<lparr>cache := c\<rparr>)"
  by (simp add: timers_wf_def)

lemma timers_wf_clearTimeout:
  "timers_wf s \<Longrightarrow> Some h \<noteq> throttleSaveCacheTimeout s \<Longrightarrow> timers_wf (clearTimeout h s)"
  unfolding timers_wf_def
  by (auto simp: clearTimeout_def distinct_map_filter)

lemma set_Map_set: "set (Map_set k v m) \<subseteq> insert (k, v) (set m)"
  unfolding Map_set_def by (induction m) auto

lemma set_Map_delete: "set (Map_delete k m) \<subseteq> set m"
  by (auto simp: Map_delete_def AList.delete_eq)

lemma timers_wf_expiryMap_delete:
  "timers_wf s \<Longrightarrow> timers_wf (s\<lparr>expiryMap := Map_delete k (expiryMap s)\<rparr>)"
  unfolding timers_wf_def using set_Map_delete [of k "expiryMap s"] by auto

lemma timers_wf_throttleSaveCache: "timers_wf s \<Longrightarrow> timers_wf (throttleSaveCache s)"
  unfolding timers_wf_def
  by (auto simp: throttleSaveCache_def setTimeout_def)

lemma timers_wf_arm_expiry: "timers_wf s \<Longrightarrow> timers_wf (arm_expiry key t s)"
proof -
  assume wf: "timers_wf s"
  define s1 where "s1 = (case Map_get (expiryMap s) key of
                    Some (ts, timeout) \<Rightarrow> clearTimeout timeout s
                  | None \<Rightarrow> s)"
  have wf1: "timers_wf s1"
  proof (cases "Map_get (expiryMap s) key")
    case None
    then show ?thesis using wf by (simp add: s1_def)
  next
    case (Some p)
    obtain ts h where p: "p = (ts, h)" by (cases p)
    from Some have "(key, ts, h) \<in> set (expiryMap s)"
      by (auto simp: Map_get_def p dest: map_of_SomeD)
    with wf have "Some h \<noteq> throttleSaveCacheTimeout s"
      by (auto simp: timers_wf_def)
    with wf show ?thesis
      by (simp add: s1_def Some p timers_wf_clearTimeout)
  qed
  have armed: "timers_wf (let (timeout, s2) = setTimeout (DeleteId key) d s1
                          in s2\<lparr>expiryMap := Map_set key (now s2, timeout) (expiryMap s2)\<rparr>)" for d
  proof -
    let ?h = "nextHandle s1"
    let ?s = "s1\<lparr>timers := timers s1 @ [\<lparr>handle = ?h, armedAt = now s1, delay = d, callback = DeleteId key\<rparr>],
                 nextHandle := Suc ?h,
                 expiryMap := Map_set key (now s1, ?h) (expiryMap s1)\<rparr>"
    have fresh: "Some ?h \<noteq> throttleSaveCacheTimeout s1"
      using wf1 unfolding timers_wf_def by (metis less_irrefl)
    have rec: "snd (snd e) < Suc ?h \<and> Some (snd (snd e)) \<noteq> throttleSaveCacheTimeout s1"
      if "e \<in> set (Map_set key (now s1, ?h) (expiryMap s1))" for e
    proof -
      from that set_Map_set [of key "(now s1, ?h)" "expiryMap s1"]
      have "e = (key, now s1, ?h) \<or> e \<in> set (expiryMap s1)" by auto
      then show ?thesis
      proof
        assume "e = (key, now s1, ?h)"
        then show ?thesis using fresh by simp
      next
        assume "e \<in> set (expiryMap s1)"
        with wf1 show ?thesis unfolding timers_wf_def by (simp add: less_Suc_eq)
      qed
    qed
    have "timers_wf ?s"
      unfolding timers_wf_def using wf1 rec
      by (auto simp: timers_wf_def less_Suc_eq)
    then show ?thesis by (simp add: setTimeout_def Let_def)
  qed
  show ?thesis
    using wf armed unfolding arm_expiry_def s1_def [symmetric] by (simp add: Let_def)
qed

lemma timers_wf_Persistent_delete: "timers_wf s \<Longrightarrow> timers_wf (snd (Persistent_delete key s))"
proof -
  assume wf: "timers_wf s"
  then have "distinct (map fst (Map_delete key (cache s)))"
    by (simp add: timers_wf_def Map_delete_distinct)
  with wf have "timers_wf (s\<lparr>cache := Map_delete key (cache s)\<rparr>)"
    by (rule timers_wf_cache_update)
  then have "timers_wf (s\<lparr>cache := Map_delete key (cache s), expiryMap := Map_delete key (expiryMap s)\<rparr>)"
    using timers_wf_expiryMap_delete [of "s\<lparr>cache := Map_delete key (cache s)\<rparr>" key] by simp
  then show ?thesis
    unfolding Persistent_delete_eq by (rule timers_wf_throttleSaveCache)
qed

lemma timers_wf_Persistent_set: "timers_wf s \<Longrightarrow> timers_wf (Persistent_set key v a s)"
proof -
  assume wf: "timers_wf s"
  define s1 where "s1 = s\<lparr>cache := Map_set key v (cache s)\<rparr>"
  define s3 where "s3 = arm_expiry key (default_param a (ttl s)) s1"
  have "timers_wf s1"
    unfolding s1_def using wf
    by (rule timers_wf_cache_update) (use wf in \<open>simp add: timers_wf_def Map_set_distinct\<close>)
  then have wf3: "timers_wf s3" unfolding s3_def by (rule timers_wf_arm_expiry)
  have eq: "Persistent_set key v a s =
          throttleSaveCache
           (if hasMaxEntries (- 1) s1 then
              (case cache s1 of [] \<Rightarrow> s3 | (first, w) # rest \<Rightarrow> snd (Persistent_delete first s3))
            else s3)"
    unfolding s3_def s1_def by (simp add: Persistent_set_phases Let_def)
  show ?thesis
    unfolding eq
    by (rule timers_wf_throttleSaveCache)
       (simp add: wf3 timers_wf_Persistent_delete split: list.splits)
qed

lemma timers_wf_fold_clearTimeout:
  assumes "timers_wf s" and "\<forall>e \<in> set em. Some (snd (snd e)) \<noteq> throttleSaveCacheTimeout s"
  shows "timers_wf (fold (\<lambda>(k, ts, timeout). clearTimeout timeout) em s)"
  using assms
proof (induction em arbitrary: s)
  case Nil
  then show ?case by simp
next
  case (Cons e em)
  obtain k ts h where e: "e = (k, ts, h)" by (cases e)
  from Cons.prems have "timers_wf (clearTimeout h s)"
    by (simp add: e timers_wf_clearTimeout)
  moreover from Cons.prems
  have "\<forall>e \<in> set em. Some (snd (snd e)) \<noteq> throttleSaveCacheTimeout (clearTimeout h s)"
    by simp
  ultimately show ?case using Cons.IH by (simp add: e)
qed

lemma timers_wf_Persistent_clear: "timers_wf s \<Longrightarrow> timers_wf (Persistent_clear s)"
proof -
  assume wf: "timers_wf s"
  let ?s1 = "s\<lparr>cache := []\<rparr>"
  have wf1: "timers_wf ?s1" using wf by (simp add: timers_wf_def)
  then have "\<forall>e \<in> set (expiryMap ?s1). Some (snd (snd e)) \<noteq> throttleSaveCacheTimeout ?s1"
    by (simp add: timers_wf_def)
  with wf1 have "timers_wf (fold (\<lambda>(k, ts, timeout). clearTimeout timeout) (expiryMap ?s1) ?s1)"
    by (rule timers_wf_fold_clearTimeout)
  then have "timers_wf (HashCache_clear s)"
    by (simp add: HashCache_clear_def Let_def timers_wf_def)
  then show ?thesis
    unfolding Persistent_clear_def by (rule timers_wf_throttleSaveCache)
qed

lemma distinct_handles_unique:
  "distinct (map handle ts) \<Longrightarrow> t \<in> set ts \<Longrightarrow> u \<in> set ts \<Longrightarrow> handle t = handle u \<Longrightarrow> t = u"
  by (meson distinct_map inj_onD)

text \<open>The scheduled save timer is the timer that a firing of its handle finds.\<close>

lemma find_scheduled_save:
  assumes "timers_wf s" and "throttleSaveCacheTimeout s = Some h"
  shows "\<exists>t. find (\<lambda>t. handle t = h) (timers s) = Some t \<and> callback t = ThrottleSaveRun \<and>
             delay t = 5000 \<and> armedAt t \<le> now s"
proof -
  from assms obtain t where t: "t \<in> set (timers s)" "handle t = h" "callback t = ThrottleSaveRun"
    "delay t = 5000" "armedAt t \<le> now s"
    unfolding timers_wf_def by blast
  then obtain u where u: "find (\<lambda>t. handle t = h) (timers s) = Some u"
    by (cases "find (\<lambda>t. handle t = h) (timers s)") (auto simp: find_None_iff)
  then have "u \<in> set (timers s)" "handle u = h"
    using find_handle by blast+
  with t assms(1) have "u = t"
    unfolding timers_wf_def by (metis distinct_handles_unique)
  with u t show ?thesis by simp
qed

lemma timers_wf_throttleSaveRun:
  assumes "timers_wf s"
    and "\<forall>t \<in> set (timers s). callback t \<noteq> ThrottleSaveRun"
  shows "timers_wf (throttleSaveRun D ok s)"
proof -
  have d: "distinct (map fst (cache (throttleSaveRun D ok s)))"
    and c: "cacheSaveEvery (throttleSaveRun D ok s) = 5000"
    and n: "nextHandle (throttleSaveRun D ok s) = nextHandle s"
    using assms(1)
    by (auto simp: timers_wf_def throttleSaveRun_def Let_def saveCache_def ensureCacheFileExists_def
        writeFile_def split: prod.splits promise.splits if_splits)
  show ?thesis
    unfolding timers_wf_def using assms(1) d c n
    by (simp add: timers_wf_def)
qed

lemma timers_wf_pstep: "timers_wf s \<Longrightarrow> throttle_inv s \<Longrightarrow> timers_wf (pstep D e s)"
proof (cases e)
  case (PSet key v a)
  assume "timers_wf s" then show ?thesis using PSet by (simp add: timers_wf_Persistent_set)
next
  case (PDelete key)
  assume "timers_wf s" then show ?thesis using PDelete by (simp add: timers_wf_Persistent_delete)
next
  case PClear
  assume "timers_wf s" then show ?thesis using PClear by (simp add: timers_wf_Persistent_clear)
next
  case (PTick ms)
  assume "timers_wf s" then show ?thesis using PTick by (fastforce simp: timers_wf_def)
next
  case (PFire h ok)
  assume wf: "timers_wf s" and inv: "throttle_inv s"
  show ?thesis
  proof (cases "find (\<lambda>t. handle t = h) (timers s)")
    case None
    then show ?thesis using wf PFire by (simp add: fire_body_def)
  next
    case (Some t)
    note t = find_handle [OF Some]
    show ?thesis
    proof (cases "callback t")
      case (DeleteId k)
      have "Some h \<noteq> throttleSaveCacheTimeout s"
      proof
        assume "Some h = throttleSaveCacheTimeout s"
        then have "throttleSaveCacheTimeout s = Some h" by simp
        from find_scheduled_save [OF wf this] Some DeleteId show False by simp
      qed
      with wf have "timers_wf (clearTimeout h s)" by (rule timers_wf_clearTimeout)
      then show ?thesis using wf PFire Some DeleteId
        by (simp add: fire_body_def timers_wf_Persistent_delete)
    next
      case ThrottleSaveRun
      with inv t have f: "throttleSaveCacheTimeout s = Some h"
        by (auto simp: throttle_inv_def)
      with inv have only: "\<forall>u \<in> set (timers s). callback u = ThrottleSaveRun \<longrightarrow> handle u = h"
        by (auto simp: throttle_inv_def)
      let ?s' = "(clearTimeout h s)\<lparr>throttleSaveCacheTimeout := None\<rparr>"
      have wf': "timers_wf ?s'"
        using wf unfolding timers_wf_def by (auto simp: clearTimeout_def distinct_map_filter)
      have none: "\<forall>u \<in> set (timers ?s'). callback u \<noteq> ThrottleSaveRun"
        using only by (auto simp: clearTimeout_def)
      have run: "throttleSaveRun D ok (clearTimeout h s) = throttleSaveRun D ok ?s'"
        by (simp add: throttleSaveRun_def Let_def saveCache_def ensureCacheFileExists_def writeFile_def
            computeAnyHash_def computeBufferHash_def clearTimeout_def
            split: prod.splits promise.splits)
      from timers_wf_throttleSaveRun [OF wf' none, of D ok]
      show ?thesis using PFire Some ThrottleSaveRun wf
        by (simp add: fire_body_def run)
    qed
  qed
qed

lemma timers_wf_new:
  assumes "PersistentHashCache_new options file = Inr s"
  shows "timers_wf s \<and> throttle_inv s"
  using new_fields [OF assms] by (simp add: timers_wf_def throttle_inv_def)

lemma timers_wf_prun:
  "timers_wf s \<Longrightarrow> throttle_inv s \<Longrightarrow> timers_wf (prun D evs s) \<and> throttle_inv (prun D evs s)"
  by (induction evs arbitrary: s) (simp_all add: prun_def timers_wf_pstep pstep_throttle_inv)

lemma timers_wf_constructor_load:
  assumes "timers_wf s" and "throttle_inv s" and "constructor_load D ok s = (Resolved (), s1)"
  shows "timers_wf s1 \<and> throttle_inv s1 \<and> cacheFileExists s1"
proof -
  from assms(3) obtain s' where l: "loadCache D ok s = (Resolved (), s')" and s1: "s1 = throttleSaveCache s'"
    by (auto simp: constructor_load_def split: prod.splits promise.splits)
  note r = loadCache_resolved [OF l]
  from r assms(1) have "timers_wf s'" by (simp add: timers_wf_def)
  then have a: "timers_wf s1" unfolding s1 by (rule timers_wf_throttleSaveCache)
  from r assms(2) have "throttle_inv s'" by (simp add: throttle_inv_def)
  then have b: "throttle_inv s1" unfolding s1 by (rule throttleSaveCache_inv)
  from r have "cacheFileExists s1" by (simp add: s1)
  with a b show ?thesis by simp
qed

subsection \<open>Worked example: a set issued before the load resolves\<close>

text \<open>
  The constructor starts the load and returns; a \<open>set\<close> issued right after it runs
  before the load resolves. Over a missing file the entry stays.
\<close>

lemma example_early_set:
  "constructor_load sha256_hex True (prun sha256_hex [PSet ''x'' ''1'' Omitted] (default_persistent None)) =
     (Resolved (),
      (default_persistent (Some (Document (JObject []))))
        \<lparr>cache := [(''x'', ''1'')], expiryMap := [(''x'', 0, 0)],
         timers := [\<lparr>handle = 0, armedAt = 0, delay = 3600000, callback = DeleteId ''x''\<rparr>,
                    \<lparr>handle = 1, armedAt = 0, delay = 5000, callback = ThrottleSaveRun\<rparr>],
         nextHandle := 2, cacheHash := Some ''44136fa355b367'', cacheFileExists := True,
         throttleSaveCacheTimeout := Some 1, writeCalls := 1\<rparr>)"
  by (simp add: durable_eval json_eval)

subsection \<open>Waiting for the scheduled save\<close>





subsection \<open>Worked examples: entries that do not reach the file\<close>







subsection \<open>The claims about the durable layer\<close>

lemma default_persistent_fields:
  "algorithm (default_persistent f) = ''sha256''" "encoding (default_persistent f) = ''hex''"
  "hash_length (default_persistent f) = 14" "ttl (default_persistent f) = Some 3600000"
  "maxEntries (default_persistent f) = None" "cache (default_persistent f) = []"
  "expiryMap (default_persistent f) = []" "timers (default_persistent f) = []"
  "nextHandle (default_persistent f) = 0" "now (default_persistent f) = 0"
  "cacheSaveEvery (default_persistent f) = 5000" "cacheHash (default_persistent f) = None"
  "cacheFileExists (default_persistent f) = False"
  "throttleSaveCacheTimeout (default_persistent f) = None"
  "disk (default_persistent f) = f" "writeCalls (default_persistent f) = 0"
  by (simp_all add: default_persistent_def)

text \<open>
  Claim C6. In every state that the layer reaches after its startup load has resolved,
  whichever mutations the client issued before that and whatever happened since: while a
  save is scheduled and its timer has not fired, no event (a \<open>set\<close>,
  \<open>delete\<close> or \<open>clear\<close>, the passage of time, the firing of an expiry timer) calls
  \<open>writeFile\<close> or schedules a second save; every mutation leaves a save scheduled; an
  event calls \<open>writeFile\<close> at most once; the save run writes nothing when the
  fingerprint of the entry store equals \<open>_cacheHash\<close>; and a save run that follows a
  save run with no mutation in between writes nothing.
\<close>

theorem debounce_coalesces_saves:
  assumes new: "PersistentHashCache_new options file = Inr s0"
    and early: "\<forall>e \<in> set pre. is_mutation e"
    and load: "constructor_load D ok0 (prun D pre s0) = (Resolved (), s1)"
    and reached: "s = prun D evs0 s1"
  shows "(throttleSaveCacheTimeout s = Some h \<and> (\<forall>e \<in> set evs. \<not> fires_timer h e) \<longrightarrow>
            writeCalls (prun D evs s) = writeCalls s \<and> disk (prun D evs s) = disk s \<and>
            throttleSaveCacheTimeout (prun D evs s) = Some h)
         \<and> throttleSaveCacheTimeout (Persistent_set key v a s) \<noteq> None
         \<and> throttleSaveCacheTimeout (snd (Persistent_delete key s)) \<noteq> None
         \<and> throttleSaveCacheTimeout (Persistent_clear s) \<noteq> None
         \<and> writeCalls (pstep D e s) \<le> writeCalls s + 1
         \<and> (Some (computeAnyHash D s (Object_fromEntries (cache s)) no_options) = cacheHash s \<longrightarrow>
              writeCalls (throttleSaveRun D ok s) = writeCalls s \<and> disk (throttleSaveRun D ok s) = disk s)
         \<and> writeCalls (throttleSaveRun D ok2 (throttleSaveRun D ok s)) =
             writeCalls (throttleSaveRun D ok s)"
proof -
  from timers_wf_new [OF new] have "timers_wf s0" "throttle_inv s0" by simp_all
  then have "timers_wf (prun D pre s0)" "throttle_inv (prun D pre s0)"
    using timers_wf_prun by blast+
  from timers_wf_constructor_load [OF this load]
  have "throttle_inv s1" "cacheFileExists s1" by simp_all
  then have inv: "throttle_inv s" and ex: "cacheFileExists s"
    unfolding reached using prun_reachable_inv by blast+
  have 1: "writeCalls (prun D evs s) = writeCalls s \<and> disk (prun D evs s) = disk s \<and>
           throttleSaveCacheTimeout (prun D evs s) = Some h"
    if "throttleSaveCacheTimeout s = Some h" "\<forall>e \<in> set evs. \<not> fires_timer h e"
    using prun_while_scheduled [OF inv that] by simp
  have 2: "throttleSaveCacheTimeout (Persistent_set key v a s) \<noteq> None"
    "throttleSaveCacheTimeout (snd (Persistent_delete key s)) \<noteq> None"
    "throttleSaveCacheTimeout (Persistent_clear s) \<noteq> None"
    by (simp_all add: Persistent_set_def Persistent_delete_eq Persistent_clear_def throttleSaveCache_timers)
  have 3: "writeCalls (pstep D e s) \<le> writeCalls s + 1"
    using ex by (rule pstep_writes_at_most_once)
  have 4: "writeCalls (throttleSaveRun D ok s) = writeCalls s \<and> disk (throttleSaveRun D ok s) = disk s"
    if "Some (computeAnyHash D s (Object_fromEntries (cache s)) no_options) = cacheHash s"
    by (simp add: throttleSaveRun_unchanged [OF that])
  note 5 = throttleSaveRun_twice [of D ok2 ok s]
  from 1 2 3 4 5 show ?thesis by blast
qed

theorem debounce_coalesces_saves_witness:
  "writeCalls
     (prun sha256_hex
        [PSet ''a'' ''1'' Omitted, PSet ''b'' ''2'' Omitted, PDelete ''a'', PSet ''c'' ''3'' Omitted,
         PTick 1000, PSet ''a'' ''4'' (Given 20), PTick 20, PFire 5 True, PClear,
         PSet ''d'' ''5'' Null]
        (snd (constructor_load sha256_hex True
           (prun sha256_hex [PSet ''x'' ''1'' Omitted] (default_persistent None))))) =
   writeCalls (snd (constructor_load sha256_hex True
           (prun sha256_hex [PSet ''x'' ''1'' Omitted] (default_persistent None))))
   \<and> writeCalls
        (pstep sha256_hex (PFire 1 True)
           (snd (constructor_load sha256_hex True
              (prun sha256_hex [PSet ''x'' ''1'' Omitted] (default_persistent None))))) \<le>
      writeCalls (snd (constructor_load sha256_hex True
           (prun sha256_hex [PSet ''x'' ''1'' Omitted] (default_persistent None)))) + 1"
proof -
  let ?pre = "[PSet ''x'' ''1'' Omitted]"
  let ?s1 = "snd (constructor_load sha256_hex True (prun sha256_hex ?pre (default_persistent None)))"
  have m: "\<forall>e \<in> set ?pre. is_mutation e" by simp
  have l: "constructor_load sha256_hex True (prun sha256_hex ?pre (default_persistent None)) =
             (Resolved (), ?s1)"
    by (simp add: example_early_set)
  have h: "throttleSaveCacheTimeout ?s1 = Some 1"
    by (simp add: example_early_set)
  have r: "?s1 = prun sha256_hex [] ?s1" by (simp add: prun_def)
  show ?thesis
    using debounce_coalesces_saves [OF example_new m l r, where h = 1 and e = "PFire 1 True"
        and evs = "[PSet ''a'' ''1'' Omitted, PSet ''b'' ''2'' Omitted, PDelete ''a'',
         PSet ''c'' ''3'' Omitted, PTick 1000, PSet ''a'' ''4'' (Given 20), PTick 20, PFire 5 True,
         PClear, PSet ''d'' ''5'' Null]"]
    by (simp add: h)
qed

text \<open>
  Claim C4, as the code has it. \<open>_cacheHash\<close> is assigned by the load, to the
  fingerprint of the parsed document (of the empty object when the file does not parse),
  and by the save run, to the fingerprint of the entry store, before the write is issued
  and whatever its outcome; when the write succeeds the file holds that document, when it
  fails the file is as before. No other event changes \<open>_cacheHash\<close>.
\<close>

theorem cacheHash_set_by_load_and_save_run:
  "cacheHash (throttleSaveRun D ok s) =
     Some (computeAnyHash D s (Object_fromEntries (cache s)) no_options)
   \<and> (cacheFileExists s \<and>
       cacheHash s \<noteq> Some (computeAnyHash D s (Object_fromEntries (cache s)) no_options) \<longrightarrow>
         disk (throttleSaveRun D True s) = Some (stringified (Object_fromEntries (cache s))) \<and>
         disk (throttleSaveRun D False s) = disk s)
   \<and> (disk s = Some data \<longrightarrow>
         cacheHash (snd (loadCache D ok s)) =
           Some (computeAnyHash D s (case data of Unparseable \<Rightarrow> JObject [] | Document v \<Rightarrow> v)
                   no_options))
   \<and> (\<not> runs_save e s \<longrightarrow> cacheHash (pstep D e s) = cacheHash s)"
proof -
  have 1: "cacheHash (snd (loadCache D ok s)) =
           Some (computeAnyHash D s (case data of Unparseable \<Rightarrow> JObject [] | Document v \<Rightarrow> v)
                   no_options)" if "disk s = Some data"
    unfolding loadCache_existing_file [OF that] Let_def
    by (simp split: option.splits)
  show ?thesis
    using 1 by (simp add: throttleSaveRun_cacheHash throttleSaveRun_existing pstep_cacheHash)
qed

theorem cacheHash_set_by_load_and_save_run_witness:
  "cacheHash (throttleSaveRun sha256_hex True
      (Persistent_set ''x'' ''1'' Omitted (snd (constructor_load sha256_hex True (default_persistent None))))) =
     Some ''013bdcb2b4d38b''
   \<and> disk (throttleSaveRun sha256_hex True
      (Persistent_set ''x'' ''1'' Omitted (snd (constructor_load sha256_hex True (default_persistent None))))) =
     Some (Document (JObject [(''x'', JString ''1'')]))
   \<and> cacheHash (snd (loadCache sha256_hex True
      (Persistent_set ''x'' ''1'' Omitted (snd (constructor_load sha256_hex True (default_persistent None)))))) =
     Some ''44136fa355b367''
   \<and> cacheHash (pstep sha256_hex (PFire 1 True)
        (Persistent_set ''x'' ''1'' Omitted (snd (constructor_load sha256_hex True (default_persistent None))))) =
       Some ''44136fa355b367''"
proof -
  let ?s2 = "Persistent_set ''x'' ''1'' Omitted (snd (constructor_load sha256_hex True (default_persistent None)))"
  let ?h = "computeAnyHash sha256_hex ?s2 (Object_fromEntries (cache ?s2)) no_options"
  have c: "cache ?s2 = [(''x'', ''1'')]" and ch: "cacheHash ?s2 = Some ''44136fa355b367''"
    and ex: "cacheFileExists ?s2" and d: "disk ?s2 = Some (Document (JObject []))"
    and hl: "hash_length ?s2 = 14"
    unfolding example_set by (simp_all add: default_persistent_fields)
  have h: "?h = ''013bdcb2b4d38b''"
    unfolding c using example_hash_x [of ?s2] hl by simp
  have ne: "cacheHash ?s2 \<noteq> Some ?h"
    unfolding h ch by simp
  have st: "stringified (Object_fromEntries (cache ?s2)) = Document (JObject [(''x'', JString ''1'')])"
    unfolding c by (rule example_file_x)
  have e: "computeAnyHash sha256_hex ?s2 (case Document (JObject []) of Unparseable \<Rightarrow> JObject [] | Document v \<Rightarrow> v)
             no_options = ''44136fa355b367''"
    using hl by (simp add: json_eval)
  have n: "\<not> runs_save (PFire 1 True) ?s2"
    unfolding example_set by (simp add: default_persistent_fields)
  note T = cacheHash_set_by_load_and_save_run [where D = sha256_hex and s = ?s2 and ok = True
            and data = "Document (JObject [])" and e = "PFire 1 True"]
  from T have "cacheHash (throttleSaveRun sha256_hex True ?s2) = Some ?h" by blast
  moreover from T ex ne have "disk (throttleSaveRun sha256_hex True ?s2) =
      Some (stringified (Object_fromEntries (cache ?s2)))" by blast
  moreover from T d have "cacheHash (snd (loadCache sha256_hex True ?s2)) =
      Some (computeAnyHash sha256_hex ?s2 (case Document (JObject []) of Unparseable \<Rightarrow> JObject [] | Document v \<Rightarrow> v)
             no_options)" by blast
  moreover from T n have "cacheHash (pstep sha256_hex (PFire 1 True) ?s2) = cacheHash ?s2" by blast
  ultimately show ?thesis
    unfolding h st e ch by blast
qed

text \<open>
  Claim C4 as stated fails: a save whose write fails changes \<open>_cacheHash\<close> from the
  fingerprint of the document on disk to the fingerprint of the entry store, which is not
  on disk.
\<close>

theorem failed_write_updates_cacheHash_counterexample:
  "cacheHash (snd (constructor_load sha256_hex True (default_persistent None))) = Some ''44136fa355b367''
   \<and> disk (snd (constructor_load sha256_hex True (default_persistent None))) = Some (Document (JObject []))
   \<and> cacheHash
        (prun sha256_hex [PSet ''x'' ''1'' Omitted, PTick 5000, PFire 0 False]
           (snd (constructor_load sha256_hex True (default_persistent None)))) = Some ''013bdcb2b4d38b''
   \<and> disk
        (prun sha256_hex [PSet ''x'' ''1'' Omitted, PTick 5000, PFire 0 False]
           (snd (constructor_load sha256_hex True (default_persistent None)))) = Some (Document (JObject []))"
proof -
  have "cacheHash (snd (constructor_load sha256_hex True (default_persistent None))) = Some ''44136fa355b367''"
    "disk (snd (constructor_load sha256_hex True (default_persistent None))) = Some (Document (JObject []))"
    unfolding example_loaded by (simp_all add: default_persistent_fields)
  moreover have "cacheHash
        (prun sha256_hex [PSet ''x'' ''1'' Omitted, PTick 5000, PFire 0 False]
           (snd (constructor_load sha256_hex True (default_persistent None)))) = Some ''013bdcb2b4d38b''"
    "disk
        (prun sha256_hex [PSet ''x'' ''1'' Omitted, PTick 5000, PFire 0 False]
           (snd (constructor_load sha256_hex True (default_persistent None)))) = Some (Document (JObject []))"
    unfolding example_saved by (simp_all add: default_persistent_fields)
  ultimately show ?thesis by blast
qed

text \<open>
  Claim C5 fails on the code for a backing file that holds the JSON text \<open>null\<close>:
  \<open>JSON.parse\<close> returns \<open>null\<close>, \<open>Object.entries(null)\<close> throws a TypeError, the
  promise of \<open>loadCache\<close> is rejected and the constructor never arms the debounce timer.
  A file that does not parse loads as the empty cache, and an entry whose value is not a
  string is skipped.
\<close>

theorem load_of_null_document_rejects:
  "fst (constructor_load D ok (default_persistent (Some (Document JNull)))) =
     Rejected (TypeError ''Cannot convert undefined or null to object'')
   \<and> timers (snd (constructor_load D ok (default_persistent (Some (Document JNull))))) = []
   \<and> fst (constructor_load D ok (default_persistent (Some Unparseable))) = Resolved ()
   \<and> cache (snd (constructor_load D ok
        (default_persistent (Some (Document (JObject [(''a'', JString ''1''), (''b'', JNumber 2)])))))) =
       [(''a'', ''1'')]"
proof -
  have d: "disk (default_persistent (Some x)) = Some x" for x
    by (simp add: default_persistent_fields)
  have o: "own_properties ([] :: (string \<times> json) list) = []"
    "own_properties [(''a'', JString ''1''), (''b'', JNumber 2)] = [(''a'', JString ''1''), (''b'', JNumber 2)]"
    by (simp_all add: own_properties_def is_array_index_def is_digit_def)
  show ?thesis
    by (simp add: constructor_load_def loadCache_existing_file [OF d] Let_def o load_entry_def
        Map_set_def default_persistent_fields throttleSaveCache_timers)
qed




end
